theory Spec2Isabelle
  imports Main "HOL-Library.AList"
begin

section \<open>Data of the service worker\<close>

text \<open>
  A parsed URL, as \<^verbatim>\<open>new URL(request.url)\<close> and \<^verbatim>\<open>location\<close> expose it: the
  worker reads \<^verbatim>\<open>origin\<close> and \<^verbatim>\<open>hostname\<close>. The serialized URL is split where a cache
  splits it: \<open>address\<close> is the URL up to its fragment (scheme, host, path and query), the
  part a cache compares; \<open>hash\<close> is the fragment (\<^verbatim>\<open>url.hash\<close>, empty when there is none),
  which a cache ignores. \<^verbatim>\<open>url.href\<close> is \<open>address\<close> followed by \<open>hash\<close>.
\<close>

record url =
  address :: string
  hash :: string
  origin :: string
  hostname :: string

text \<open>A request: the fields the worker reads (\<^verbatim>\<open>request.method\<close>, \<^verbatim>\<open>request.url\<close>,
  \<^verbatim>\<open>request.mode\<close>), and its headers, which a cache compares when a stored response
  has a \<^verbatim>\<open>Vary\<close> header: one pair per header name, the names in lower case.\<close>

record request =
  req_method :: string
  req_url :: url
  req_mode :: string
  req_headers :: "(string \<times> string) list"

text \<open>A response: its status code, its body bytes, and the header names its \<^verbatim>\<open>Vary\<close>
  header lists, in lower case (none when the response has no \<^verbatim>\<open>Vary\<close> header; \<^verbatim>\<open>*\<close> is
  the wildcard). \<^verbatim>\<open>response.clone()\<close> is the same value.\<close>

record response =
  status :: nat
  body :: string
  vary :: "string list"

text \<open>What a rejected promise carries. A transport failure of \<^verbatim>\<open>fetch\<close> is whatever
  error the network capability gives; \<^verbatim>\<open>TypeError\<close> and \<^verbatim>\<open>InvalidStateError\<close> are the
  platform's own rejections of \<^verbatim>\<open>cache.addAll\<close>.\<close>

datatype error = FetchFailed | TypeError | InvalidStateError

text \<open>The network fetch capability, supplied by the environment.\<close>

type_synonym net = "request \<Rightarrow> error + response"

text \<open>
  The identity of a request is its method and its URL, fragment excluded. A cache is the
  list of its entries in insertion order, each the stored request with its response; it
  may hold several entries of one identity, told apart by the headers a stored response's
  \<^verbatim>\<open>Vary\<close> names. The cache storage is the list of named caches (generations) in creation
  order, as \<^verbatim>\<open>caches.keys()\<close> enumerates them.
\<close>

type_synonym identity = "string \<times> string"
type_synonym cache = "(request \<times> response) list"
type_synonym storage = "(string \<times> cache) list"

text \<open>A call of \<^verbatim>\<open>cache.put\<close> whose promise nobody awaits: the name of the cache it was
  called on, the request and the cloned response.\<close>

type_synonym put_call = "string \<times> request \<times> response"

text \<open>
  The state the worker's handlers act on: the cache storage, the \<^verbatim>\<open>cache.put\<close> calls
  that were started and have not completed yet, the requests handed to the network so
  far, and whether \<^verbatim>\<open>self.skipWaiting()\<close> and \<^verbatim>\<open>self.clients.claim()\<close> were called.
\<close>

record sw_state =
  caches :: storage
  pending :: "put_call list"
  fetched :: "request list"
  skip_waiting :: bool
  claimed :: bool

definition init_state :: sw_state where
  "init_state = \<lparr>caches = [], pending = [], fetched = [], skip_waiting = False, claimed = False\<rparr>"

section \<open>Constants of sw.js\<close>

definition CACHE_NAME :: string where
  "CACHE_NAME = ''quran-app-v2.0''"

definition RUNTIME_CACHE :: string where
  "RUNTIME_CACHE = ''quran-runtime-v2.0''"

definition STATIC_ASSETS :: "string list" where
  "STATIC_ASSETS =
     [''/'', ''/index.html'', ''/styles.css'', ''/js/app.js'', ''/manifest.json'',
      ''/logo.png'', ''/splash.png'', ''/favicon.png'']"

definition apiDomains :: "string list" where
  "apiDomains = [''api.quran.com'', ''api.aladhan.com'', ''cdn.jsdelivr.net'', ''api.bigdatacloud.net'']"

definition allowedDomains :: "string list" where
  "allowedDomains =
     [''api.quran.com'', ''api.aladhan.com'', ''cdn.jsdelivr.net'', ''api.bigdatacloud.net'',
      ''server'', ''.mp3quran.net'', ''fonts.googleapis.com'', ''fonts.gstatic.com'',
      ''raw.githubusercontent.com'']"

section \<open>The platform operations the worker calls\<close>

subsection \<open>String.prototype.includes\<close>

fun startsWith :: "string \<Rightarrow> string \<Rightarrow> bool" where
  "startsWith h [] = True"
| "startsWith [] (d # ds) = False"
| "startsWith (c # cs) (d # ds) = (c = d \<and> startsWith cs ds)"

text \<open>\<^verbatim>\<open>h.includes(d)\<close>: the search string is looked for at every position of \<open>h\<close>.\<close>

fun str_includes :: "string \<Rightarrow> string \<Rightarrow> bool" where
  "str_includes [] d = (d = [])"
| "str_includes (c # cs) d = (startsWith (c # cs) d \<or> str_includes cs d)"

subsection \<open>Cache and CacheStorage\<close>

definition identity_of :: "request \<Rightarrow> identity" where
  "identity_of r = (req_method r, address (req_url r))"

text \<open>The entries of a cache by identity: each stored request replaced by its identity.\<close>

definition keyed :: "cache \<Rightarrow> (identity \<times> response) list" where
  "keyed c = map (\<lambda>e. (identity_of (fst e), snd e)) c"

text \<open>A string given where a request is expected (\<^verbatim>\<open>cache.addAll\<close>, \<^verbatim>\<open>caches.match\<close>)
  becomes a GET request without headers for the path resolved against the worker's
  location; what follows a \<^verbatim>\<open>#\<close> in it is the fragment.\<close>

definition request_of :: "url \<Rightarrow> string \<Rightarrow> request" where
  "request_of loc path =
     \<lparr>req_method = ''GET'',
      req_url = \<lparr>address = origin loc @ takeWhile (\<lambda>c. c \<noteq> CHR ''#'') path,
                 hash = dropWhile (\<lambda>c. c \<noteq> CHR ''#'') path,
                 origin = origin loc, hostname = hostname loc\<rparr>,
      req_mode = ''cors'', req_headers = []\<rparr>"

text \<open>
  When a cache is asked for a request, a stored entry matches if its URL equals the
  request's, fragments excluded, and, for every header name the stored response's
  \<^verbatim>\<open>Vary\<close> lists, the name is not \<^verbatim>\<open>*\<close> and the stored request and the asking request
  have the same value for it (or both none).
\<close>

definition matches :: "request \<Rightarrow> request \<times> response \<Rightarrow> bool" where
  "matches q e =
     (address (req_url q) = address (req_url (fst e)) \<and>
      list_all (\<lambda>f. f \<noteq> ''*'' \<and> map_of (req_headers (fst e)) f = map_of (req_headers q) f)
        (vary (snd e)))"

text \<open>\<^verbatim>\<open>cache.match(request)\<close>: a request that is not a GET matches nothing; otherwise the
  response of the first entry that matches, \<^verbatim>\<open>undefined\<close> (\<open>None\<close>) when none does.\<close>

definition cache_match :: "request \<Rightarrow> cache \<Rightarrow> response option" where
  "cache_match r c =
     (if req_method r = ''GET'' then map_option snd (find (matches r) c) else None)"

text \<open>A cache stores requests for \<^verbatim>\<open>http\<close> and \<^verbatim>\<open>https\<close> URLs only.\<close>

definition http_url :: "url \<Rightarrow> bool" where
  "http_url u = (startsWith (address u) ''http:'' \<or> startsWith (address u) ''https:'')"

text \<open>\<^verbatim>\<open>cache.put(request, response)\<close>, once it completes: it is rejected, and nothing is
  written, when the request is not a GET or not for an \<^verbatim>\<open>http(s)\<close> URL, when the response's
  \<^verbatim>\<open>Vary\<close> lists \<^verbatim>\<open>*\<close>, or when its status is 206; otherwise the entries that match the
  request are removed and the new entry is appended.\<close>

definition cache_put :: "request \<Rightarrow> response \<Rightarrow> cache \<Rightarrow> cache" where
  "cache_put r resp c =
     (if req_method r = ''GET'' \<and> http_url (req_url r) \<and> ''*'' \<notin> set (vary resp) \<and>
         status resp \<noteq> 206
      then filter (\<lambda>e. \<not> matches r e) c @ [(r, resp)]
      else c)"

text \<open>The entries of the cache of a name; none when the storage has no such cache.\<close>

definition cache_of :: "storage \<Rightarrow> string \<Rightarrow> cache" where
  "cache_of cs name = (case map_of cs name of None \<Rightarrow> [] | Some c \<Rightarrow> c)"

text \<open>\<^verbatim>\<open>caches.open(name)\<close> creates the cache, empty, when the storage has none of that
  name.\<close>

definition caches_open :: "string \<Rightarrow> storage \<Rightarrow> storage" where
  "caches_open name cs = (case map_of cs name of None \<Rightarrow> cs @ [(name, [])] | Some c \<Rightarrow> cs)"

text \<open>\<^verbatim>\<open>caches.match(request)\<close> asks every cache of the storage, in creation order, and
  gives the first match.\<close>

fun caches_match :: "request \<Rightarrow> storage \<Rightarrow> response option" where
  "caches_match r [] = None"
| "caches_match r ((name, c) # cs) =
     (case cache_match r c of Some resp \<Rightarrow> Some resp | None \<Rightarrow> caches_match r cs)"

text \<open>A \<^verbatim>\<open>cache.put\<close> landing in the storage: it writes to the cache it was called on,
  and is lost when that cache has been deleted meanwhile.\<close>

definition put_into :: "cache \<Rightarrow> put_call \<Rightarrow> cache" where
  "put_into c p = cache_put (fst (snd p)) (snd (snd p)) c"

definition apply_put :: "storage \<Rightarrow> put_call \<Rightarrow> storage" where
  "apply_put cs p =
     (case map_of cs (fst p) of
        None \<Rightarrow> cs
      | Some c \<Rightarrow> AList.update (fst p) (put_into c p) cs)"

text \<open>The started \<^verbatim>\<open>cache.put\<close> calls complete one by one, in any order: the \<open>i\<close>-th
  pending call lands, or is rejected, and is no longer pending.\<close>

definition complete :: "nat \<Rightarrow> sw_state \<Rightarrow> sw_state" where
  "complete i s =
     (if i < length (pending s)
      then s\<lparr>caches := apply_put (caches s) (pending s ! i),
             pending := take i (pending s) @ drop (Suc i) (pending s)\<rparr>
      else s)"

text \<open>A started call may also fail for a reason of the environment (the storage quota is
  exceeded): it is no longer pending and nothing is written.\<close>

definition fail_put :: "nat \<Rightarrow> sw_state \<Rightarrow> sw_state" where
  "fail_put i s =
     (if i < length (pending s)
      then s\<lparr>pending := take i (pending s) @ drop (Suc i) (pending s)\<rparr>
      else s)"

text \<open>One schedule among these: every pending call completes, the oldest first.\<close>

definition settle :: "sw_state \<Rightarrow> sw_state" where
  "settle s = s\<lparr>caches := foldl apply_put (caches s) (pending s), pending := []\<rparr>"

text \<open>\<^verbatim>\<open>fetch(request)\<close>: the request goes to the network, which answers with a response
  (of any status) or fails.\<close>

definition fetch :: "net \<Rightarrow> request \<Rightarrow> sw_state \<Rightarrow> (error + response) \<times> sw_state" where
  "fetch net r s = (net r, s\<lparr>fetched := fetched s @ [r]\<rparr>)"

text \<open>
  \<^verbatim>\<open>cache.addAll(requests)\<close> fetches every request and writes nothing unless all of them
  succeed. It rejects with its own \<^verbatim>\<open>TypeError\<close> when a request is not a GET or not for an
  \<^verbatim>\<open>http(s)\<close> URL, when a fetch fails, or when a response has a status outside 200..299,
  the status 206, or a \<^verbatim>\<open>Vary\<close> that lists \<^verbatim>\<open>*\<close>; and with \<^verbatim>\<open>InvalidStateError\<close> when a request of the batch matches an
  entry the batch has added before it. Otherwise all entries are written at once.
\<close>

definition ok_status :: "response \<Rightarrow> bool" where
  "ok_status resp = (200 \<le> status resp \<and> status resp \<le> 299 \<and> status resp \<noteq> 206)"

fun fetch_all :: "net \<Rightarrow> request list \<Rightarrow> error + response list" where
  "fetch_all net [] = Inr []"
| "fetch_all net (r # rs) =
     (case net r of
        Inl e \<Rightarrow> Inl TypeError
      | Inr resp \<Rightarrow>
          if req_method r = ''GET'' \<and> http_url (req_url r) \<and> ok_status resp \<and>
             ''*'' \<notin> set (vary resp)
          then (case fetch_all net rs of Inl e \<Rightarrow> Inl e | Inr resps \<Rightarrow> Inr (resp # resps))
          else Inl TypeError)"

fun no_clash :: "cache \<Rightarrow> cache \<Rightarrow> bool" where
  "no_clash added [] = True"
| "no_clash added (e # es) = (\<not> list_ex (matches (fst e)) added \<and> no_clash (added @ [e]) es)"

definition addAll :: "net \<Rightarrow> string \<Rightarrow> request list \<Rightarrow> sw_state \<Rightarrow> (error + unit) \<times> sw_state" where
  "addAll net name rs s =
     (let s1 = s\<lparr>fetched := fetched s @ rs\<rparr> in
      case fetch_all net rs of
        Inl e \<Rightarrow> (Inl e, s1)
      | Inr resps \<Rightarrow>
          if no_clash [] (zip rs resps)
          then (Inr (),
                s1\<lparr>caches := foldl apply_put (caches s1) (map (\<lambda>(r, resp). (name, r, resp)) (zip rs resps))\<rparr>)
          else (Inl InvalidStateError, s1))"

section \<open>The handlers and strategies of sw.js\<close>

subsection \<open>install\<close>

text \<open>
  The install handler: \<^verbatim>\<open>caches.open(CACHE_NAME)\<close>, then \<^verbatim>\<open>cache.addAll(STATIC_ASSETS)\<close>,
  then \<^verbatim>\<open>self.skipWaiting()\<close>. The promise chain is handed to \<^verbatim>\<open>event.waitUntil\<close>, so a
  rejection of \<^verbatim>\<open>addAll\<close> skips \<^verbatim>\<open>skipWaiting\<close> and fails the installation.
\<close>

definition install :: "net \<Rightarrow> url \<Rightarrow> sw_state \<Rightarrow> (error + unit) \<times> sw_state" where
  "install net loc s =
     (let s1 = s\<lparr>caches := caches_open CACHE_NAME (caches s)\<rparr> in
      case addAll net CACHE_NAME (map (request_of loc) STATIC_ASSETS) s1 of
        (Inl e, s2) \<Rightarrow> (Inl e, s2)
      | (Inr u, s2) \<Rightarrow> (Inr (), s2\<lparr>skip_waiting := True\<rparr>))"

subsection \<open>activate\<close>

text \<open>The names the activate handler passes to \<^verbatim>\<open>caches.delete\<close>: those of
  \<^verbatim>\<open>caches.keys()\<close> that are neither \<open>CACHE_NAME\<close> nor \<open>RUNTIME_CACHE\<close>. After the
  deletions the handler calls \<^verbatim>\<open>self.clients.claim()\<close>.\<close>

definition stale_names :: "storage \<Rightarrow> string list" where
  "stale_names cs = filter (\<lambda>name. name \<noteq> CACHE_NAME \<and> name \<noteq> RUNTIME_CACHE) (map fst cs)"

definition activate :: "sw_state \<Rightarrow> sw_state" where
  "activate s =
     s\<lparr>caches := foldl (\<lambda>cs name. AList.delete name cs) (caches s) (stale_names (caches s)),
       claimed := True\<rparr>"

subsection \<open>The strategies\<close>

text \<open>
  Both strategies await \<^verbatim>\<open>caches.open\<close>, \<^verbatim>\<open>cache.match\<close> and \<^verbatim>\<open>fetch\<close>, and call
  \<^verbatim>\<open>cache.put(request, response.clone())\<close> without awaiting it: the write is started,
  joins the \<open>pending\<close> writes of the state, and the response is returned. The result is
  the value the returned promise resolves with (\<open>None\<close> for \<^verbatim>\<open>undefined\<close>) or the error
  it rejects with.
\<close>

definition cacheFirst :: "net \<Rightarrow> url \<Rightarrow> request \<Rightarrow> sw_state \<Rightarrow> (error + response option) \<times> sw_state" where
  "cacheFirst net loc request s =
     (let s1 = s\<lparr>caches := caches_open CACHE_NAME (caches s)\<rparr> in
      case cache_match request (cache_of (caches s1) CACHE_NAME) of
        Some cached \<Rightarrow> (Inr (Some cached), s1)
      | None \<Rightarrow>
          (case fetch net request s1 of
             (Inr response, s2) \<Rightarrow>
               (Inr (Some response),
                if status response = 200
                then s2\<lparr>pending := pending s2 @ [(CACHE_NAME, request, response)]\<rparr>
                else s2)
           | (Inl err, s2) \<Rightarrow>
               if req_mode request = ''navigate''
               then (Inr (caches_match (request_of loc ''/offline.html'') (caches s2)), s2)
               else (Inl err, s2)))"

definition networkFirst :: "net \<Rightarrow> request \<Rightarrow> sw_state \<Rightarrow> (error + response option) \<times> sw_state" where
  "networkFirst net request s =
     (let s1 = s\<lparr>caches := caches_open RUNTIME_CACHE (caches s)\<rparr> in
      case fetch net request s1 of
        (Inr response, s2) \<Rightarrow>
          (Inr (Some response),
           if status response = 200
           then s2\<lparr>pending := pending s2 @ [(RUNTIME_CACHE, request, response)]\<rparr>
           else s2)
      | (Inl err, s2) \<Rightarrow>
          (case cache_match request (cache_of (caches s2) RUNTIME_CACHE) of
             Some cached \<Rightarrow> (Inr (Some cached), s2)
           | None \<Rightarrow> (Inl err, s2)))"

subsection \<open>The fetch handler\<close>

definition isAPIRequest :: "url \<Rightarrow> bool" where
  "isAPIRequest u = list_ex (\<lambda>domain. str_includes (hostname u) domain) apiDomains"

definition isAllowedAPI :: "url \<Rightarrow> bool" where
  "isAllowedAPI u = list_ex (\<lambda>domain. str_includes (hostname u) domain) allowedDomains"

text \<open>What the handler does with the event: it returns without \<^verbatim>\<open>respondWith\<close> (the
  request is left to the browser), or it responds with the result of a strategy.\<close>

datatype respond = NotIntercepted | RespondWith "error + response option"

definition onfetch :: "net \<Rightarrow> url \<Rightarrow> request \<Rightarrow> sw_state \<Rightarrow> respond \<times> sw_state" where
  "onfetch net loc request s =
     (if req_method request \<noteq> ''GET'' then (NotIntercepted, s)
      else if origin (req_url request) \<noteq> origin loc \<and> \<not> isAllowedAPI (req_url request)
      then (NotIntercepted, s)
      else if isAPIRequest (req_url request)
      then (case networkFirst net request s of (r, s') \<Rightarrow> (RespondWith r, s'))
      else (case cacheFirst net loc request s of (r, s') \<Rightarrow> (RespondWith r, s')))"

text \<open>The decision of the fetch handler on its own: which strategy, if any, it hands the
  request to.\<close>

datatype route = Ignored | CacheFirst | NetworkFirst

definition classify :: "url \<Rightarrow> request \<Rightarrow> route" where
  "classify loc request =
     (if req_method request \<noteq> ''GET'' then Ignored
      else if origin (req_url request) \<noteq> origin loc \<and> \<not> isAllowedAPI (req_url request)
      then Ignored
      else if isAPIRequest (req_url request) then NetworkFirst
      else CacheFirst)"

section \<open>Runs of the worker\<close>

text \<open>
  What can happen to the worker's state: the install and activate events, a fetch event
  for any request, the completion or the failure of one started write, the completion of
  all of them, and, beyond what the handlers do, a direct call of either strategy on any
  request.
\<close>

datatype event =
    Install net
  | Activate
  | Fetch net request
  | Complete nat
  | Fail nat
  | Settle
  | CallCacheFirst net request
  | CallNetworkFirst net request

fun step :: "url \<Rightarrow> sw_state \<Rightarrow> event \<Rightarrow> sw_state" where
  "step loc s (Install net) = snd (install net loc s)"
| "step loc s Activate = activate s"
| "step loc s (Fetch net r) = snd (onfetch net loc r s)"
| "step loc s (Complete i) = complete i s"
| "step loc s (Fail i) = fail_put i s"
| "step loc s Settle = settle s"
| "step loc s (CallCacheFirst net r) = snd (cacheFirst net loc r s)"
| "step loc s (CallNetworkFirst net r) = snd (networkFirst net r s)"

definition run :: "url \<Rightarrow> event list \<Rightarrow> sw_state \<Rightarrow> sw_state" where
  "run loc es s = foldl (step loc) s es"

text \<open>Every key of a cache, and of every generation of a storage, is the identity of a GET
  request.\<close>

definition get_keys :: "cache \<Rightarrow> bool" where
  "get_keys c = list_all (\<lambda>e. req_method (fst e) = ''GET'') c"

definition get_only :: "storage \<Rightarrow> bool" where
  "get_only cs = list_all (\<lambda>g. get_keys (snd g)) cs"

section \<open>Notions for the statements\<close>

text \<open>How many entries of a cache match a request, and how many entries a cache holds
  under an identity.\<close>

definition match_count :: "request \<Rightarrow> cache \<Rightarrow> nat" where
  "match_count q c = length (filter (matches q) c)"

definition entry_count :: "identity \<Rightarrow> (identity \<times> response) list \<Rightarrow> nat" where
  "entry_count k c = length (filter (\<lambda>e. fst e = k) c)"

text \<open>A write that \<^verbatim>\<open>cache.put\<close> accepts.\<close>

definition put_accepted :: "request \<Rightarrow> response \<Rightarrow> bool" where
  "put_accepted r resp \<longleftrightarrow>
     req_method r = ''GET'' \<and> http_url (req_url r) \<and> ''*'' \<notin> set (vary resp) \<and> status resp \<noteq> 206"

text \<open>A request that \<^verbatim>\<open>cache.addAll\<close> accepts and the network answers with a response
  that \<^verbatim>\<open>cache.addAll\<close> accepts.\<close>

definition fetches_ok :: "net \<Rightarrow> request \<Rightarrow> bool" where
  "fetches_ok net r =
     (case net r of
        Inl e \<Rightarrow> False
      | Inr resp \<Rightarrow>
          req_method r = ''GET'' \<and> http_url (req_url r) \<and> ok_status resp \<and> ''*'' \<notin> set (vary resp))"

text \<open>The identity of a manifest asset: a GET of its path at the worker's origin.\<close>

definition asset_key :: "url \<Rightarrow> string \<Rightarrow> identity" where
  "asset_key loc a = (''GET'', origin loc @ a)"

text \<open>The writes \<^verbatim>\<open>cache.addAll(STATIC_ASSETS)\<close> performs when every asset fetches: each
  asset's request with the response the network gives for it.\<close>

definition manifest_puts :: "net \<Rightarrow> url \<Rightarrow> put_call list" where
  "manifest_puts net loc =
     map (\<lambda>r. (CACHE_NAME, r, projr (net r))) (map (request_of loc) STATIC_ASSETS)"

section \<open>Concrete inputs\<close>

text \<open>A location of the worker, requests to its own origin, and three networks: one that
  answers every request with status 200, one that answers 404, one that is down.\<close>

definition loc0 :: url where
  "loc0 = \<lparr>address = ''https://quran.example/sw.js'', hash = [],
            origin = ''https://quran.example'', hostname = ''quran.example''\<rparr>"

definition own_req :: "string \<Rightarrow> string \<Rightarrow> string \<Rightarrow> request" where
  "own_req m path md =
     \<lparr>req_method = m,
      req_url = \<lparr>address = ''https://quran.example'' @ path, hash = [],
                 origin = ''https://quran.example'', hostname = ''quran.example''\<rparr>,
      req_mode = md, req_headers = []\<rparr>"

definition api_req :: request where
  "api_req =
     \<lparr>req_method = ''GET'',
      req_url = \<lparr>address = ''https://api.quran.com/v4/x'', hash = [],
                 origin = ''https://api.quran.com'', hostname = ''api.quran.com''\<rparr>,
      req_mode = ''cors'', req_headers = []\<rparr>"

definition net_ok :: net where
  "net_ok r = Inr \<lparr>status = 200, body = ''body of '' @ address (req_url r), vary = []\<rparr>"

definition net_404 :: net where
  "net_404 r = Inr \<lparr>status = 404, body = ''not found'', vary = []\<rparr>"

definition net_down :: net where
  "net_down r = Inl FetchFailed"

definition index_entry :: "request \<times> response" where
  "index_entry =
     (own_req ''GET'' ''/index.html'' ''navigate'', \<lparr>status = 200, body = ''<html>'', vary = []\<rparr>)"

definition s_index :: sw_state where
  "s_index = init_state\<lparr>caches := [(CACHE_NAME, [index_entry])]\<rparr>"

definition page_req :: request where
  "page_req = own_req ''GET'' ''/quran'' ''navigate''"

definition s_api :: sw_state where
  "s_api = init_state\<lparr>caches :=
     [(RUNTIME_CACHE, [(api_req, \<lparr>status = 200, body = ''stale'', vary = []\<rparr>)])]\<rparr>"

definition s_old :: sw_state where
  "s_old = init_state\<lparr>caches :=
     [(''quran-app-v1.0'', [index_entry]), (CACHE_NAME, [index_entry]), (''quran-runtime-v1.0'', []),
      (RUNTIME_CACHE, [])]\<rparr>"

definition evil_req :: request where
  "evil_req =
     \<lparr>req_method = ''GET'',
      req_url = \<lparr>address = ''https://evil-server.com/x'', hash = [],
                 origin = ''https://evil-server.com'', hostname = ''evil-server.com''\<rparr>,
      req_mode = ''no-cors'', req_headers = []\<rparr>"

definition post_req :: request where
  "post_req = own_req ''POST'' ''/favorite'' ''cors''"

definition logo_req :: request where
  "logo_req = own_req ''GET'' ''/logo.png'' ''no-cors''"


text \<open>The index page asked for with a fragment, by a script.\<close>

definition index_req_frag :: request where
  "index_req_frag =
     \<lparr>req_method = ''GET'',
      req_url = \<lparr>address = ''https://quran.example/index.html'', hash = ''#top'',
                 origin = ''https://quran.example'', hostname = ''quran.example''\<rparr>,
      req_mode = ''cors'', req_headers = [(''accept'', ''*/*'')]\<rparr>"

text \<open>A network on which the third manifest asset fails and every other request gets a
  200.\<close>

definition net_bad3 :: net where
  "net_bad3 r =
     (if address (req_url r) = ''https://quran.example/styles.css'' then Inl FetchFailed
      else Inr \<lparr>status = 200, body = ''body of '' @ address (req_url r), vary = []\<rparr>)"

text \<open>An offline page stored in the runtime generation, or in the generation of an older
  version of the worker, while the static generation is empty.\<close>

definition offline_entry :: "request \<times> response" where
  "offline_entry =
     (own_req ''GET'' ''/offline.html'' ''navigate'', \<lparr>status = 200, body = ''offline'', vary = []\<rparr>)"

definition s_runtime_offline :: sw_state where
  "s_runtime_offline = init_state\<lparr>caches := [(CACHE_NAME, []), (RUNTIME_CACHE, [offline_entry])]\<rparr>"

definition s_old_offline :: sw_state where
  "s_old_offline = init_state\<lparr>caches := [(''quran-app-v1.0'', [offline_entry]), (CACHE_NAME, [])]\<rparr>"

definition s_api_static :: sw_state where
  "s_api_static = s_api\<lparr>caches := (CACHE_NAME, [index_entry]) # caches s_api\<rparr>"

text \<open>
  Entries whose response has a \<^verbatim>\<open>Vary\<close> header. The index page was stored for a request
  that accepts HTML and its response varies on \<^verbatim>\<open>accept\<close>; the same URL is then asked for by
  a request that accepts JSON. Likewise an API answer stored for English and asked for in
  Arabic.
\<close>

definition html_req :: request where
  "html_req = (own_req ''GET'' ''/index.html'' ''navigate'')\<lparr>req_headers := [(''accept'', ''text/html'')]\<rparr>"

definition json_req :: request where
  "json_req = (own_req ''GET'' ''/index.html'' ''cors'')\<lparr>req_headers := [(''accept'', ''application/json'')]\<rparr>"

definition html_resp :: response where
  "html_resp = \<lparr>status = 200, body = ''<html>'', vary = [''accept'']\<rparr>"

definition s_vary :: sw_state where
  "s_vary = init_state\<lparr>caches := [(CACHE_NAME, [(html_req, html_resp)])]\<rparr>"

definition api_en :: request where
  "api_en = api_req\<lparr>req_headers := [(''accept-language'', ''en'')]\<rparr>"

definition api_ar :: request where
  "api_ar = api_req\<lparr>req_headers := [(''accept-language'', ''ar'')]\<rparr>"

definition en_resp :: response where
  "en_resp = \<lparr>status = 200, body = ''stale, in English'', vary = [''accept-language'']\<rparr>"

definition s_api_vary :: sw_state where
  "s_api_vary = init_state\<lparr>caches := [(RUNTIME_CACHE, [(api_en, en_resp)])]\<rparr>"

section \<open>Facts about the platform operations\<close>

lemma map_of_caches_open:
  "map_of (caches_open n cs) m = (if m = n \<and> map_of cs n = None then Some [] else map_of cs m)"
  by (auto simp: caches_open_def map_add_def split: option.splits)

lemma cache_of_caches_open [simp]: "cache_of (caches_open n cs) m = cache_of cs m"
  by (simp add: cache_of_def map_of_caches_open)

lemma caches_open_present: "map_of cs n = Some c \<Longrightarrow> caches_open n cs = cs"
  by (simp add: caches_open_def)

lemma caches_open_defined: "\<exists>c. map_of (caches_open n cs) n = Some c"
  by (cases "map_of cs n") (simp_all add: map_of_caches_open)

lemma cache_match_nonempty:
  "cache_match r (cache_of cs n) = Some e \<Longrightarrow> \<exists>c. map_of cs n = Some c"
  by (cases "map_of cs n") (simp_all add: cache_of_def cache_match_def split: if_splits)

lemma map_of_apply_put:
  "map_of (apply_put cs p) n =
     (if fst p = n then map_option (\<lambda>c. put_into c p) (map_of cs n) else map_of cs n)"
  by (auto simp: apply_put_def update_conv' split: option.splits)

lemma cache_of_apply_put_other: "fst p \<noteq> n \<Longrightarrow> cache_of (apply_put cs p) n = cache_of cs n"
  by (simp add: cache_of_def map_of_apply_put)


lemma map_of_foldl_apply_put:
  "map_of (foldl apply_put cs ps) n =
     map_option (\<lambda>c. foldl put_into c (filter (\<lambda>p. fst p = n) ps)) (map_of cs n)"
proof (induction ps arbitrary: cs)
  case Nil
  show ?case by (simp add: option.map_ident)
next
  case (Cons p ps)
  show ?case
    by (simp add: Cons.IH map_of_apply_put option.map_comp comp_def)
qed

lemma cache_of_foldl_apply_put:
  "cache_of (foldl apply_put cs ps) n =
     (case map_of cs n of None \<Rightarrow> [] | Some c \<Rightarrow> foldl put_into c (filter (\<lambda>p. fst p = n) ps))"
  by (simp add: cache_of_def map_of_foldl_apply_put split: option.splits)

lemma caches_complete:
  "i < length (pending s) \<Longrightarrow> caches (complete i s) = apply_put (caches s) (pending s ! i)"
  by (simp add: complete_def)

subsection \<open>Matching\<close>

lemma find_as_filter: "find P xs = (case filter P xs of [] \<Rightarrow> None | x # ys \<Rightarrow> Some x)"
  by (induction xs) auto


lemma matches_own: "''*'' \<notin> set (vary resp) \<Longrightarrow> matches r (r, resp)"
  by (auto simp: matches_def list_all_iff)

lemma matches_same_address: "matches q e \<Longrightarrow> address (req_url (fst e)) = address (req_url q)"
  by (simp add: matches_def)


lemma matches_no_vary:
  "vary (snd e) = [] \<Longrightarrow> matches q e \<longleftrightarrow> address (req_url q) = address (req_url (fst e))"
  by (simp add: matches_def)

lemma cache_put_accepted:
  "put_accepted r resp \<Longrightarrow> cache_put r resp c = filter (\<lambda>e. \<not> matches r e) c @ [(r, resp)]"
  by (simp add: cache_put_def put_accepted_def)

lemma cache_put_rejected: "\<not> put_accepted r resp \<Longrightarrow> cache_put r resp c = c"
  by (auto simp: cache_put_def put_accepted_def)

lemma filter_matches_put_same:
  "put_accepted r resp \<Longrightarrow> filter (matches r) (cache_put r resp c) = [(r, resp)]"
  by (simp add: cache_put_accepted matches_own put_accepted_def)

lemma filter_matches_put_other:
  assumes "address (req_url q) \<noteq> address (req_url r)"
  shows "filter (matches q) (cache_put r resp c) = filter (matches q) c"
proof (cases "put_accepted r resp")
  case True
  have "\<not> matches q (r, resp)"
    using assms by (auto simp: matches_def)
  moreover have "filter (matches q) (filter (\<lambda>e. \<not> matches r e) c) = filter (matches q) c"
    using assms by (auto simp: matches_def intro!: filter_cong)
  ultimately show ?thesis
    using True by (simp add: cache_put_accepted)
next
  case False
  then show ?thesis by (simp add: cache_put_rejected)
qed


section \<open>The strategies, case by case\<close>

lemma cacheFirst_on_hit:
  "cache_match r (cache_of (caches s) CACHE_NAME) = Some c \<Longrightarrow>
   cacheFirst net loc r s = (Inr (Some c), s\<lparr>caches := caches_open CACHE_NAME (caches s)\<rparr>)"
  by (simp add: cacheFirst_def Let_def)

lemma cacheFirst_on_response:
  "cache_match r (cache_of (caches s) CACHE_NAME) = None \<Longrightarrow> net r = Inr resp \<Longrightarrow>
   cacheFirst net loc r s =
     (Inr (Some resp),
      s\<lparr>caches := caches_open CACHE_NAME (caches s), fetched := fetched s @ [r],
        pending := pending s @ (if status resp = 200 then [(CACHE_NAME, r, resp)] else [])\<rparr>)"
  by (simp add: cacheFirst_def Let_def fetch_def)

lemma cacheFirst_on_failure:
  "cache_match r (cache_of (caches s) CACHE_NAME) = None \<Longrightarrow> net r = Inl e \<Longrightarrow>
   cacheFirst net loc r s =
     (if req_mode r = ''navigate''
      then Inr (caches_match (request_of loc ''/offline.html'') (caches_open CACHE_NAME (caches s)))
      else Inl e,
      s\<lparr>caches := caches_open CACHE_NAME (caches s), fetched := fetched s @ [r]\<rparr>)"
  by (simp add: cacheFirst_def Let_def fetch_def)

lemma networkFirst_on_response:
  "net r = Inr resp \<Longrightarrow>
   networkFirst net r s =
     (Inr (Some resp),
      s\<lparr>caches := caches_open RUNTIME_CACHE (caches s), fetched := fetched s @ [r],
        pending := pending s @ (if status resp = 200 then [(RUNTIME_CACHE, r, resp)] else [])\<rparr>)"
  by (simp add: networkFirst_def Let_def fetch_def)

lemma networkFirst_on_failure:
  "net r = Inl e \<Longrightarrow>
   networkFirst net r s =
     (case cache_match r (cache_of (caches s) RUNTIME_CACHE) of
        Some c \<Rightarrow> Inr (Some c) | None \<Rightarrow> Inl e,
      s\<lparr>caches := caches_open RUNTIME_CACHE (caches s), fetched := fetched s @ [r]\<rparr>)"
  by (simp add: networkFirst_def Let_def fetch_def split: option.splits)

lemma cacheFirst_cases:
  obtains (hit) c where "cache_match r (cache_of (caches s) CACHE_NAME) = Some c"
  | (response) resp where "cache_match r (cache_of (caches s) CACHE_NAME) = None" "net r = Inr resp"
  | (failure) e where "cache_match r (cache_of (caches s) CACHE_NAME) = None" "net r = Inl e"
  by (cases "cache_match r (cache_of (caches s) CACHE_NAME)"; cases "net r") auto

lemma cacheFirst_stored:
  assumes "cache_match r (cache_of (caches s) CACHE_NAME) = Some e"
  shows "cacheFirst net loc r s = (Inr (Some e), s)"
proof -
  from assms obtain c where "map_of (caches s) CACHE_NAME = Some c"
    using cache_match_nonempty by blast
  then have "caches_open CACHE_NAME (caches s) = caches s"
    by (rule caches_open_present)
  then show ?thesis
    using assms by (simp add: cacheFirst_on_hit)
qed

lemma caches_cacheFirst:
  "caches (snd (cacheFirst net loc r s)) = caches_open CACHE_NAME (caches s)"
  by (cases rule: cacheFirst_cases [where r = r and s = s and net = net])
    (auto simp: cacheFirst_on_hit cacheFirst_on_response cacheFirst_on_failure)

lemma caches_networkFirst:
  "caches (snd (networkFirst net r s)) = caches_open RUNTIME_CACHE (caches s)"
  by (cases "net r") (auto simp: networkFirst_on_response networkFirst_on_failure)

text \<open>Completing every pending write, the oldest first, is one of the schedules.\<close>

lemma settle_as_completions:
  "length (pending s) = n \<Longrightarrow> settle s = (complete 0 ^^ n) s"
proof (induction n arbitrary: s)
  case 0
  then show ?case by (simp add: settle_def)
next
  case (Suc n)
  then obtain p ps where ps: "pending s = p # ps"
    by (cases "pending s") auto
  with Suc.prems have "length (pending (complete 0 s)) = n"
    by (simp add: complete_def)
  then have "settle (complete 0 s) = (complete 0 ^^ n) (complete 0 s)"
    by (rule Suc.IH)
  moreover have "settle s = settle (complete 0 s)"
    by (simp add: settle_def complete_def ps)
  ultimately show ?case
    by (simp add: funpow_swap1)
qed

section \<open>Facts about activate\<close>

lemma foldl_delete:
  "foldl (\<lambda>cs name. AList.delete name cs) cs ns = filter (\<lambda>e. fst e \<notin> set ns) cs"
proof (induction ns arbitrary: cs)
  case Nil
  show ?case by simp
next
  case (Cons n ns)
  show ?case
    by (simp add: Cons.IH) (auto simp: AList.delete_eq case_prod_unfold intro!: filter_cong)
qed

lemma set_stale_names:
  "set (stale_names cs) = fst ` set cs - {CACHE_NAME, RUNTIME_CACHE}"
  by (auto simp: stale_names_def)

lemma caches_activate:
  "caches (activate s) = filter (\<lambda>e. fst e \<in> {CACHE_NAME, RUNTIME_CACHE}) (caches s)"
proof -
  have "caches (activate s) = filter (\<lambda>e. fst e \<notin> set (stale_names (caches s))) (caches s)"
    by (simp add: activate_def foldl_delete)
  also have "\<dots> = filter (\<lambda>e. fst e \<in> {CACHE_NAME, RUNTIME_CACHE}) (caches s)"
    by (rule filter_cong) (auto simp: set_stale_names)
  finally show ?thesis .
qed

section \<open>Facts about includes and the fetch handler\<close>

lemma startsWith_iff: "startsWith h d \<longleftrightarrow> (\<exists>suf. h = d @ suf)"
  by (induction h d rule: startsWith.induct) auto

lemma str_includes_iff: "str_includes h d \<longleftrightarrow> (\<exists>pre suf. h = pre @ d @ suf)"
proof (induction h)
  case Nil
  show ?case by auto
next
  case (Cons c cs)
  have "(\<exists>pre suf. c # cs = pre @ d @ suf) \<longleftrightarrow>
        (\<exists>suf. c # cs = d @ suf) \<or> (\<exists>pre suf. cs = pre @ d @ suf)"
  proof
    assume "\<exists>pre suf. c # cs = pre @ d @ suf"
    then obtain pre suf where eq: "c # cs = pre @ d @ suf" by blast
    show "(\<exists>suf. c # cs = d @ suf) \<or> (\<exists>pre suf. cs = pre @ d @ suf)"
    proof (cases pre)
      case Nil
      with eq show ?thesis by auto
    next
      case (Cons p ps)
      with eq have "cs = ps @ d @ suf" by simp
      then show ?thesis by blast
    qed
  next
    assume "(\<exists>suf. c # cs = d @ suf) \<or> (\<exists>pre suf. cs = pre @ d @ suf)"
    then show "\<exists>pre suf. c # cs = pre @ d @ suf"
    proof
      assume "\<exists>suf. c # cs = d @ suf"
      then obtain suf where "c # cs = [] @ d @ suf" by auto
      then show ?thesis by blast
    next
      assume "\<exists>pre suf. cs = pre @ d @ suf"
      then obtain pre suf where "c # cs = (c # pre) @ d @ suf" by auto
      then show ?thesis by blast
    qed
  qed
  then show ?case
    using Cons.IH by (simp add: startsWith_iff)
qed

lemma onfetch_classify:
  "onfetch net loc r s =
     (case classify loc r of
        Ignored \<Rightarrow> (NotIntercepted, s)
      | NetworkFirst \<Rightarrow> (RespondWith (fst (networkFirst net r s)), snd (networkFirst net r s))
      | CacheFirst \<Rightarrow> (RespondWith (fst (cacheFirst net loc r s)), snd (cacheFirst net loc r s)))"
  by (simp add: onfetch_def classify_def split: prod.splits)

section \<open>Keys stay GET identities\<close>

lemma get_keys_cache_put: "get_keys c \<Longrightarrow> get_keys (cache_put r resp c)"
  by (auto simp: get_keys_def cache_put_def list_all_iff)

lemma get_only_update: "get_only cs \<Longrightarrow> get_keys c \<Longrightarrow> get_only (AList.update n c cs)"
  by (induction cs) (auto simp: get_only_def)

lemma get_only_lookup: "get_only cs \<Longrightarrow> map_of cs n = Some c \<Longrightarrow> get_keys c"
  by (auto simp: get_only_def list_all_iff dest!: map_of_SomeD)

lemma get_only_cache_of: "get_only cs \<Longrightarrow> get_keys (cache_of cs n)"
  by (cases "map_of cs n") (auto simp: cache_of_def get_keys_def dest: get_only_lookup)

lemma get_only_apply_put: "get_only cs \<Longrightarrow> get_only (apply_put cs p)"
  by (cases "map_of cs (fst p)")
    (auto simp: apply_put_def put_into_def intro: get_only_update get_keys_cache_put get_only_lookup)

lemma get_only_foldl_apply_put: "get_only cs \<Longrightarrow> get_only (foldl apply_put cs ps)"
  by (induction ps arbitrary: cs) (auto intro: get_only_apply_put)

lemma get_only_caches_open: "get_only cs \<Longrightarrow> get_only (caches_open n cs)"
  by (cases "map_of cs n") (auto simp: caches_open_def get_only_def get_keys_def)

lemma get_only_filter: "get_only cs \<Longrightarrow> get_only (filter P cs)"
  by (auto simp: get_only_def list_all_iff)

lemma get_only_addAll:
  "get_only (caches s) \<Longrightarrow> get_only (caches (snd (addAll net n rs s)))"
  by (auto simp: addAll_def Let_def split: sum.splits intro: get_only_foldl_apply_put)

lemma get_only_install:
  "get_only (caches s) \<Longrightarrow> get_only (caches (snd (install net loc s)))"
proof -
  assume "get_only (caches s)"
  then have "get_only (caches (snd (addAll net CACHE_NAME (map (request_of loc) STATIC_ASSETS)
      (s\<lparr>caches := caches_open CACHE_NAME (caches s)\<rparr>))))"
    by (intro get_only_addAll) (simp add: get_only_caches_open)
  then show ?thesis
    by (auto simp: install_def Let_def split: prod.splits sum.splits)
qed

lemma get_only_step: "get_only (caches s) \<Longrightarrow> get_only (caches (step loc s e))"
proof (cases e)
  case (Install net)
  assume "get_only (caches s)"
  then show ?thesis using Install by (simp add: get_only_install)
next
  case Activate
  assume "get_only (caches s)"
  then show ?thesis using Activate by (simp add: caches_activate get_only_filter)
next
  case (Fetch net r)
  assume "get_only (caches s)"
  then show ?thesis using Fetch
    by (simp add: onfetch_classify caches_cacheFirst caches_networkFirst get_only_caches_open
        split: route.splits)
next
  case (Complete i)
  assume "get_only (caches s)"
  then show ?thesis using Complete by (simp add: complete_def get_only_apply_put)
next
  case (Fail i)
  assume "get_only (caches s)"
  then show ?thesis using Fail by (simp add: fail_put_def)
next
  case Settle
  assume "get_only (caches s)"
  then show ?thesis using Settle by (simp add: settle_def get_only_foldl_apply_put)
next
  case (CallCacheFirst net r)
  assume "get_only (caches s)"
  then show ?thesis using CallCacheFirst by (simp add: caches_cacheFirst get_only_caches_open)
next
  case (CallNetworkFirst net r)
  assume "get_only (caches s)"
  then show ?thesis using CallNetworkFirst by (simp add: caches_networkFirst get_only_caches_open)
qed

lemma get_only_run: "get_only (caches s) \<Longrightarrow> get_only (caches (run loc es s))"
  unfolding run_def by (induction es arbitrary: s) (auto intro: get_only_step)

section \<open>Facts about addAll and install\<close>

lemma fetch_all_ok:
  "list_all (fetches_ok net) rs \<Longrightarrow> fetch_all net rs = Inr (map (\<lambda>r. projr (net r)) rs)"
  by (induction rs) (auto simp: fetches_ok_def split: sum.splits)

lemma fetch_all_fails:
  "\<not> list_all (fetches_ok net) rs \<Longrightarrow> fetch_all net rs = Inl TypeError"
  by (induction rs) (auto simp: fetches_ok_def split: sum.splits)

lemma addAll_fails:
  "\<not> list_all (fetches_ok net) rs \<Longrightarrow>
   addAll net n rs s = (Inl TypeError, s\<lparr>fetched := fetched s @ rs\<rparr>)"
  by (simp add: addAll_def Let_def fetch_all_fails)

lemma addAll_ok:
  "list_all (fetches_ok net) rs \<Longrightarrow> no_clash [] (map (\<lambda>r. (r, projr (net r))) rs) \<Longrightarrow>
   addAll net n rs s =
     (Inr (), s\<lparr>fetched := fetched s @ rs,
               caches := foldl apply_put (caches s) (map (\<lambda>r. (n, r, projr (net r))) rs)\<rparr>)"
  by (simp add: addAll_def Let_def fetch_all_ok zip_map2 zip_same_conv_map comp_def)

lemma no_clash_distinct:
  "distinct (map (\<lambda>e. address (req_url (fst e))) (added @ es)) \<Longrightarrow> no_clash added es"
proof (induction es arbitrary: added)
  case Nil
  show ?case by simp
next
  case (Cons e es)
  from Cons.prems have "\<not> list_ex (matches (fst e)) added"
    by (auto simp: list_ex_iff matches_def)
  moreover from Cons.prems have "no_clash (added @ [e]) es"
    by (intro Cons.IH) simp
  ultimately show ?case by simp
qed

text \<open>Writes of accepted responses for pairwise different URLs.\<close>

lemma set_cache_put: "set (cache_put r resp c) \<subseteq> insert (r, resp) (set c)"
  by (auto simp: cache_put_def)

lemma set_foldl_put_into:
  "set (foldl put_into c ps) \<subseteq> set c \<union> (\<lambda>p. (fst (snd p), snd (snd p))) ` set ps"
proof (induction ps rule: rev_induct)
  case Nil
  show ?case by simp
next
  case (snoc q ps)
  have "set (foldl put_into c (ps @ [q])) \<subseteq> insert (fst (snd q), snd (snd q)) (set (foldl put_into c ps))"
    using set_cache_put [of "fst (snd q)" "snd (snd q)" "foldl put_into c ps"]
    by (simp add: put_into_def)
  with snoc show ?case by auto
qed

lemma filter_matches_foldl:
  assumes "list_all (\<lambda>p. put_accepted (fst (snd p)) (snd (snd p))) ps"
    and "distinct (map (\<lambda>p. address (req_url (fst (snd p)))) ps)"
    and "p \<in> set ps"
  shows "filter (matches (fst (snd p))) (foldl put_into c ps) = [(fst (snd p), snd (snd p))]"
  using assms
proof (induction ps rule: rev_induct)
  case Nil
  then show ?case by simp
next
  case (snoc q ps)
  show ?case
  proof (cases "p = q")
    case True
    with snoc.prems(1) show ?thesis
      by (simp add: put_into_def filter_matches_put_same)
  next
    case False
    with snoc.prems have in_ps: "p \<in> set ps"
      by simp
    let ?as = "(\<lambda>p. address (req_url (fst (snd p)))) ` set ps"
    from snoc.prems(2) have notin: "address (req_url (fst (snd q))) \<notin> ?as"
      by simp
    from in_ps have inn: "address (req_url (fst (snd p))) \<in> ?as"
      by (rule imageI)
    have "address (req_url (fst (snd p))) \<noteq> address (req_url (fst (snd q)))"
    proof
      assume eq: "address (req_url (fst (snd p))) = address (req_url (fst (snd q)))"
      from inn have "address (req_url (fst (snd q))) \<in> ?as"
        unfolding eq .
      with notin show False
        by (rule notE)
    qed
    with snoc in_ps show ?thesis
      by (simp add: put_into_def filter_matches_put_other)
  qed
qed

lemma filter_address_put_other:
  assumes "a \<noteq> address (req_url r)"
  shows "filter (\<lambda>e. address (req_url (fst e)) = a) (cache_put r resp c)
       = filter (\<lambda>e. address (req_url (fst e)) = a) c"
proof (cases "put_accepted r resp")
  case True
  have "filter (\<lambda>e. address (req_url (fst e)) = a) (filter (\<lambda>e. \<not> matches r e) c)
      = filter (\<lambda>e. address (req_url (fst e)) = a) c"
    using assms by (auto simp: matches_def intro!: filter_cong)
  then show ?thesis
    using True assms by (auto simp: cache_put_accepted)
next
  case False
  then show ?thesis by (simp add: cache_put_rejected)
qed

lemma filter_address_put_same:
  assumes "put_accepted r resp"
    and "\<forall>e \<in> set c. address (req_url (fst e)) = address (req_url r) \<longrightarrow> vary (snd e) = []"
  shows "filter (\<lambda>e. address (req_url (fst e)) = address (req_url r)) (cache_put r resp c) = [(r, resp)]"
proof -
  have "filter (\<lambda>e. address (req_url (fst e)) = address (req_url r)) (filter (\<lambda>e. \<not> matches r e) c) = []"
    using assms(2) by (auto simp: filter_empty_conv matches_def)
  then show ?thesis
    using assms(1) by (simp add: cache_put_accepted)
qed

lemma filter_address_foldl:
  assumes "list_all (\<lambda>p. put_accepted (fst (snd p)) (snd (snd p))) ps"
    and "distinct (map (\<lambda>p. address (req_url (fst (snd p)))) ps)"
    and "list_all (\<lambda>e. vary (snd e) = []) c"
    and "p \<in> set ps"
  shows "filter (\<lambda>e. address (req_url (fst e)) = address (req_url (fst (snd p)))) (foldl put_into c ps)
       = [(fst (snd p), snd (snd p))]"
  using assms
proof (induction ps rule: rev_induct)
  case Nil
  then show ?case by simp
next
  case (snoc q ps)
  let ?as = "(\<lambda>p. address (req_url (fst (snd p)))) ` set ps"
  from snoc.prems(2) have notin: "address (req_url (fst (snd q))) \<notin> ?as"
    by simp
  show ?case
  proof (cases "p = q")
    case True
    have "vary (snd e) = []"
      if "e \<in> set (foldl put_into c ps)" "address (req_url (fst e)) = address (req_url (fst (snd q)))" for e
    proof -
      from that(1) set_foldl_put_into [of c ps]
      consider "e \<in> set c" | "e \<in> (\<lambda>p. (fst (snd p), snd (snd p))) ` set ps"
        by blast
      then show ?thesis
      proof cases
        case 1
        with snoc.prems(3) show ?thesis by (simp add: list_all_iff)
      next
        case 2
        then obtain p' where "p' \<in> set ps" "e = (fst (snd p'), snd (snd p'))"
          by blast
        then have "address (req_url (fst e)) \<in> ?as"
          by auto
        with that(2) notin show ?thesis by simp
      qed
    qed
    then have nov: "\<forall>e \<in> set (foldl put_into c ps).
        address (req_url (fst e)) = address (req_url (fst (snd q))) \<longrightarrow> vary (snd e) = []"
      by blast
    from snoc.prems(1) have acc: "put_accepted (fst (snd q)) (snd (snd q))"
      by simp
    from filter_address_put_same [OF acc nov] True show ?thesis
      by (simp add: put_into_def [of _ q])
  next
    case False
    with snoc.prems have in_ps: "p \<in> set ps"
      by simp
    then have inn: "address (req_url (fst (snd p))) \<in> ?as"
      by (rule imageI)
    have "address (req_url (fst (snd p))) \<noteq> address (req_url (fst (snd q)))"
    proof
      assume eq: "address (req_url (fst (snd p))) = address (req_url (fst (snd q)))"
      from inn have "address (req_url (fst (snd q))) \<in> ?as"
        unfolding eq .
      with notin show False
        by (rule notE)
    qed
    with snoc in_ps show ?thesis
      by (simp add: put_into_def filter_address_put_other)
  qed
qed

lemma foldl_put_into_fresh:
  assumes "list_all (\<lambda>p. put_accepted (fst (snd p)) (snd (snd p))) ps"
    and "distinct (map (\<lambda>p. address (req_url (fst (snd p)))) ps)"
  shows "foldl put_into [] ps = map (\<lambda>p. (fst (snd p), snd (snd p))) ps"
  using assms
proof (induction ps rule: rev_induct)
  case Nil
  then show ?case by simp
next
  case (snoc q ps)
  let ?entries = "map (\<lambda>p. (fst (snd p), snd (snd p))) ps"
  from snoc have ih: "foldl put_into [] ps = ?entries"
    by simp
  let ?as = "(\<lambda>p. address (req_url (fst (snd p)))) ` set ps"
  from snoc.prems(2) have notin: "address (req_url (fst (snd q))) \<notin> ?as"
    by simp
  have neq: "address (req_url (fst e)) \<noteq> address (req_url (fst (snd q)))" if "e \<in> set ?entries" for e
  proof -
    from that obtain p' where "p' \<in> set ps" "e = (fst (snd p'), snd (snd p'))"
      by auto
    then have inn: "address (req_url (fst e)) \<in> ?as"
      by auto
    show ?thesis
    proof
      assume eq: "address (req_url (fst e)) = address (req_url (fst (snd q)))"
      from inn have "address (req_url (fst (snd q))) \<in> ?as"
        unfolding eq .
      with notin show False
        by (rule notE)
    qed
  qed
  have "\<not> matches (fst (snd q)) e" if "e \<in> set ?entries" for e
  proof
    assume "matches (fst (snd q)) e"
    then have "address (req_url (fst e)) = address (req_url (fst (snd q)))"
      by (rule matches_same_address)
    with neq [OF that] show False
      by simp
  qed
  then have "filter (\<lambda>e. \<not> matches (fst (snd q)) e) ?entries = ?entries"
    by (intro filter_True) blast
  moreover have "foldl put_into [] (ps @ [q]) = put_into (foldl put_into [] ps) q"
    by simp
  moreover from snoc.prems(1) have "put_accepted (fst (snd q)) (snd (snd q))"
    by simp
  ultimately show ?case
    by (simp add: ih put_into_def [of _ q] cache_put_accepted)
qed

lemma cache_match_as_filter:
  "req_method q = ''GET'' \<Longrightarrow> filter (matches q) c = [(r, resp)] \<Longrightarrow> cache_match q c = Some resp"
  by (simp add: cache_match_def find_as_filter)

lemma filter_keyed:
  "filter (\<lambda>e. fst e = k) (keyed c) = keyed (filter (\<lambda>e. identity_of (fst e) = k) c)"
  by (simp add: keyed_def filter_map comp_def)

lemma map_of_as_filter:
  "filter (\<lambda>e. fst e = k) xs = [(k', v)] \<Longrightarrow> map_of xs k = Some v"
  by (induction xs) (auto split: if_splits)

lemma asset_without_fragment:
  "a \<in> set STATIC_ASSETS \<Longrightarrow> takeWhile (\<lambda>c. c \<noteq> CHR ''#'') a = a"
  by (auto simp: STATIC_ASSETS_def)

lemma address_request_of:
  "a \<in> set STATIC_ASSETS \<Longrightarrow> address (req_url (request_of loc a)) = origin loc @ a"
  by (simp add: request_of_def asset_without_fragment)

lemma identity_of_request_of:
  "a \<in> set STATIC_ASSETS \<Longrightarrow> identity_of (request_of loc a) = asset_key loc a"
  by (simp add: identity_of_def address_request_of asset_key_def) (simp add: request_of_def)

lemma distinct_STATIC_ASSETS: "distinct STATIC_ASSETS"
  by (simp add: STATIC_ASSETS_def)

lemma distinct_asset_keys: "distinct (map (asset_key loc) STATIC_ASSETS)"
  by (simp add: distinct_map distinct_STATIC_ASSETS inj_on_def asset_key_def)

lemma manifest_puts_addresses:
  "map (\<lambda>p. address (req_url (fst (snd p)))) (manifest_puts net loc) = map (\<lambda>a. origin loc @ a) STATIC_ASSETS"
  by (simp add: manifest_puts_def comp_def address_request_of cong: map_cong)

lemma manifest_puts_ids:
  "map (\<lambda>p. identity_of (fst (snd p))) (manifest_puts net loc) = map (asset_key loc) STATIC_ASSETS"
  by (simp add: manifest_puts_def comp_def identity_of_request_of cong: map_cong)

lemma manifest_puts_distinct:
  "distinct (map (\<lambda>p. address (req_url (fst (snd p)))) (manifest_puts net loc))"
  by (simp add: manifest_puts_addresses distinct_map distinct_STATIC_ASSETS inj_on_def)

lemma fetches_ok_accepted: "fetches_ok net r \<Longrightarrow> put_accepted r (projr (net r))"
  by (cases "net r") (auto simp: fetches_ok_def put_accepted_def ok_status_def)

lemma manifest_puts_accepted:
  assumes "list_all (\<lambda>a. fetches_ok net (request_of loc a)) STATIC_ASSETS"
  shows "list_all (\<lambda>p. put_accepted (fst (snd p)) (snd (snd p))) (manifest_puts net loc)"
  using assms by (simp add: manifest_puts_def list_all_iff fetches_ok_accepted)

lemma manifest_puts_target: "filter (\<lambda>p. fst p = CACHE_NAME) (manifest_puts net loc) = manifest_puts net loc"
  by (simp add: manifest_puts_def)

lemma install_fails:
  assumes "\<not> list_all (\<lambda>a. fetches_ok net (request_of loc a)) STATIC_ASSETS"
  shows "install net loc s =
           (Inl TypeError, s\<lparr>caches := caches_open CACHE_NAME (caches s),
                             fetched := fetched s @ map (request_of loc) STATIC_ASSETS\<rparr>)"
proof -
  from assms have "\<not> list_all (fetches_ok net) (map (request_of loc) STATIC_ASSETS)"
    by (simp add: list.pred_map comp_def)
  from addAll_fails [OF this, of CACHE_NAME "s\<lparr>caches := caches_open CACHE_NAME (caches s)\<rparr>"]
  show ?thesis
    by (simp add: install_def Let_def)
qed

lemma install_ok:
  assumes "list_all (\<lambda>a. fetches_ok net (request_of loc a)) STATIC_ASSETS"
  shows "install net loc s =
           (Inr (), s\<lparr>caches := foldl apply_put (caches_open CACHE_NAME (caches s)) (manifest_puts net loc),
                      fetched := fetched s @ map (request_of loc) STATIC_ASSETS,
                      skip_waiting := True\<rparr>)"
proof -
  let ?rs = "map (request_of loc) STATIC_ASSETS"
  from assms have "list_all (fetches_ok net) ?rs"
    by (simp add: list.pred_map comp_def)
  moreover have "no_clash [] (map (\<lambda>r. (r, projr (net r))) ?rs)"
    using manifest_puts_distinct [of net loc]
    by (intro no_clash_distinct) (simp add: manifest_puts_def comp_def)
  ultimately show ?thesis
    by (simp add: install_def Let_def addAll_ok manifest_puts_def)
qed

lemma cache_of_installed:
  "cache_of (foldl apply_put (caches_open CACHE_NAME cs) (manifest_puts net loc)) CACHE_NAME =
   foldl put_into (cache_of cs CACHE_NAME) (manifest_puts net loc)"
proof -
  obtain c where c: "map_of (caches_open CACHE_NAME cs) CACHE_NAME = Some c"
    using caches_open_defined by blast
  then have "cache_of (caches_open CACHE_NAME cs) CACHE_NAME = c"
    by (simp add: cache_of_def del: cache_of_caches_open)
  then have "cache_of cs CACHE_NAME = c"
    by simp
  then show ?thesis
    by (simp add: cache_of_foldl_apply_put c manifest_puts_target)
qed

lemma installed_state:
  "install net_ok loc0 init_state =
     (Inr (), init_state\<lparr>caches := foldl apply_put (caches_open CACHE_NAME []) (manifest_puts net_ok loc0),
                fetched := map (request_of loc0) STATIC_ASSETS, skip_waiting := True\<rparr>)"
proof -
  have "list_all (\<lambda>a. fetches_ok net_ok (request_of loc0 a)) STATIC_ASSETS"
    by (simp add: STATIC_ASSETS_def fetches_ok_def net_ok_def ok_status_def request_of_def
        http_url_def loc0_def)
  from install_ok [OF this, of init_state] show ?thesis
    by (simp add: init_state_def)
qed

section \<open>Facts about matching and rejected writes\<close>

lemma find_matches_Some:
  "find (matches r) c = Some (rq, e) \<Longrightarrow>
   address (req_url rq) = address (req_url r) \<and>
   list_all (\<lambda>f. map_of (req_headers rq) f = map_of (req_headers r) f) (vary e)"
  by (induction c) (auto simp: matches_def list_all_iff split: if_splits)


section \<open>Facts about the generation a strategy touches\<close>

lemma names_differ: "CACHE_NAME \<noteq> RUNTIME_CACHE"
  by (simp add: CACHE_NAME_def RUNTIME_CACHE_def)

lemma pending_cacheFirst:
  "\<exists>q. pending (snd (cacheFirst net loc r s)) = pending s @ q \<and> list_all (\<lambda>p. fst p = CACHE_NAME) q"
  by (cases rule: cacheFirst_cases [where r = r and s = s and net = net])
    (auto simp: cacheFirst_on_hit cacheFirst_on_response cacheFirst_on_failure)

lemma pending_networkFirst:
  "\<exists>q. pending (snd (networkFirst net r s)) = pending s @ q \<and> list_all (\<lambda>p. fst p = RUNTIME_CACHE) q"
  by (cases "net r") (auto simp: networkFirst_on_response networkFirst_on_failure)

lemma filter_other_target:
  "list_all (\<lambda>p. fst p = m) q \<Longrightarrow> m \<noteq> n \<Longrightarrow> filter (\<lambda>p. fst p = n) q = []"
  by (induction q) auto

lemma settled_other_generation:
  assumes "caches s' = caches_open m (caches s)"
    and "pending s' = pending s @ q" and "list_all (\<lambda>p. fst p = m) q" and "m \<noteq> n"
  shows "cache_of (caches (settle s')) n = cache_of (caches (settle s)) n"
proof -
  have "map_of (caches_open m (caches s)) n = map_of (caches s) n"
    using assms(4) by (simp add: map_of_caches_open)
  then show ?thesis
    using assms
    by (simp add: settle_def cache_of_foldl_apply_put filter_other_target del: foldl_append
        cong: option.case_cong)
qed

lemma networkFirst_reads_runtime:
  assumes "cache_of (caches s) RUNTIME_CACHE = cache_of (caches s') RUNTIME_CACHE"
  shows "fst (networkFirst net r s) = fst (networkFirst net r s')"
  using assms by (cases "net r") (simp_all add: networkFirst_on_response networkFirst_on_failure)

lemma cacheFirst_reads_static:
  assumes "cache_of (caches s) CACHE_NAME = cache_of (caches s') CACHE_NAME"
    and "req_mode r \<noteq> ''navigate'' \<or> (\<exists>resp. net r = Inr resp) \<or>
         cache_match r (cache_of (caches s) CACHE_NAME) \<noteq> None"
  shows "fst (cacheFirst net loc r s) = fst (cacheFirst net loc r s')"
proof (cases rule: cacheFirst_cases [where r = r and s = s and net = net])
  case (hit c)
  then show ?thesis using assms(1) by (simp add: cacheFirst_on_hit)
next
  case (response resp)
  then show ?thesis using assms(1) by (simp add: cacheFirst_on_response)
next
  case (failure e)
  with assms(2) have "req_mode r \<noteq> ''navigate''" by auto
  with failure show ?thesis using assms(1) by (simp add: cacheFirst_on_failure)
qed

section \<open>Cache-first\<close>

text \<open>
  C1, as the code has it. \<^verbatim>\<open>cache.match\<close> decides a hit, not the request identity alone:
  when the first entry of the static generation that matches a GET request is the
  stored request \<open>rq\<close> with response \<open>e\<close>, \<open>cacheFirst\<close> resolves with exactly \<open>e\<close> and
  leaves the whole state as it was; in particular the list of requests handed to the
  network does not grow, so \<open>fetch\<close> was not called. Matching means: the same URL,
  fragments aside, and the same value in both requests for every header the stored
  response's \<^verbatim>\<open>Vary\<close> names.
\<close>

theorem cacheFirst_hit:
  assumes "req_method r = ''GET''"
    and "find (matches r) (cache_of (caches s) CACHE_NAME) = Some (rq, e)"
  shows "cacheFirst net loc r s = (Inr (Some e), s) \<and>
         fetched (snd (cacheFirst net loc r s)) = fetched s \<and>
         address (req_url rq) = address (req_url r) \<and>
         list_all (\<lambda>f. map_of (req_headers rq) f = map_of (req_headers r) f) (vary e)"
proof -
  from assms have "cache_match r (cache_of (caches s) CACHE_NAME) = Some e"
    by (simp add: cache_match_def)
  then have "cacheFirst net loc r s = (Inr (Some e), s)"
    by (rule cacheFirst_stored)
  then show ?thesis
    using find_matches_Some [OF assms(2)] by simp
qed

theorem cacheFirst_hit_witness:
  "cacheFirst net_down loc0 index_req_frag s_index
     = (Inr (Some \<lparr>status = 200, body = ''<html>'', vary = []\<rparr>), s_index) \<and>
   fetched (snd (cacheFirst net_down loc0 index_req_frag s_index)) = [] \<and>
   cacheFirst net_down loc0 html_req s_vary = (Inr (Some html_resp), s_vary)"
proof -
  have "req_method index_req_frag = ''GET''"
    by (simp add: index_req_frag_def)
  moreover have "find (matches index_req_frag) (cache_of (caches s_index) CACHE_NAME)
      = Some (own_req ''GET'' ''/index.html'' ''navigate'', \<lparr>status = 200, body = ''<html>'', vary = []\<rparr>)"
    by (simp add: s_index_def init_state_def index_entry_def cache_of_def matches_def
        index_req_frag_def own_req_def)
  moreover have "req_method html_req = ''GET''"
    by (simp add: html_req_def own_req_def)
  moreover have "find (matches html_req) (cache_of (caches s_vary) CACHE_NAME) = Some (html_req, html_resp)"
    by (simp add: s_vary_def init_state_def cache_of_def matches_def html_resp_def)
  moreover have "fetched s_index = []"
    by (simp add: s_index_def init_state_def)
  ultimately show ?thesis
    using cacheFirst_hit [of index_req_frag s_index _ _ net_down loc0]
      cacheFirst_hit [of html_req s_vary html_req html_resp net_down loc0]
    by simp
qed

text \<open>
  C1 as stated fails: the static generation holds an entry under the identity of a GET
  request, stored for a request that accepts HTML with a response that varies on
  \<^verbatim>\<open>accept\<close>; the request accepts JSON, so \<^verbatim>\<open>cache.match\<close> finds nothing, and \<open>cacheFirst\<close>
  goes to the network and returns what it fetched, not the stored entry.
\<close>

theorem cacheFirst_identity_not_enough:
  "req_method json_req = ''GET'' \<and>
   identity_of json_req = identity_of html_req \<and>
   map_of (keyed (cache_of (caches s_vary) CACHE_NAME)) (identity_of json_req) = Some html_resp \<and>
   fst (cacheFirst net_ok loc0 json_req s_vary)
     = Inr (Some \<lparr>status = 200, body = ''body of https://quran.example/index.html'', vary = []\<rparr>) \<and>
   fetched (snd (cacheFirst net_ok loc0 json_req s_vary)) = [json_req]"
  by (simp add: json_req_def html_req_def own_req_def identity_of_def keyed_def s_vary_def
      init_state_def cache_of_def html_resp_def cacheFirst_def Let_def cache_match_def matches_def
      caches_open_def fetch_def net_ok_def CACHE_NAME_def)




section \<open>Network-first\<close>

text \<open>
  C3, as the code has it. \<open>networkFirst\<close>: when the fetch completes, its response is the
  result, whatever its status and whatever the runtime generation holds. When the fetch
  fails, \<^verbatim>\<open>cache.match\<close> decides the fallback, not the request identity alone: if the
  first entry of the runtime generation that matches the GET request is the stored
  request \<open>rq\<close> with response \<open>c\<close> (the same URL, fragments aside, and the same value for
  every header the response's \<^verbatim>\<open>Vary\<close> names), the result is \<open>c\<close>; if no entry matches, or
  the request is not a GET, the result is the failure of the fetch itself.
\<close>

theorem networkFirst_result:
  "(net r = Inr resp \<longrightarrow> fst (networkFirst net r s) = Inr (Some resp)) \<and>
   (net r = Inl e \<longrightarrow> req_method r = ''GET'' \<longrightarrow>
      find (matches r) (cache_of (caches s) RUNTIME_CACHE) = Some (rq, c) \<longrightarrow>
      fst (networkFirst net r s) = Inr (Some c) \<and>
      address (req_url rq) = address (req_url r) \<and>
      list_all (\<lambda>f. map_of (req_headers rq) f = map_of (req_headers r) f) (vary c)) \<and>
   (net r = Inl e \<longrightarrow>
      (req_method r \<noteq> ''GET'' \<or> list_all (\<lambda>x. \<not> matches r x) (cache_of (caches s) RUNTIME_CACHE)) \<longrightarrow>
      fst (networkFirst net r s) = Inl e)"
proof -
  have "find (matches r) (cache_of (caches s) RUNTIME_CACHE) = None"
    if "list_all (\<lambda>x. \<not> matches r x) (cache_of (caches s) RUNTIME_CACHE)"
    using that by (simp add: find_None_iff list_all_iff)
  then show ?thesis
    using find_matches_Some [of r "cache_of (caches s) RUNTIME_CACHE" rq c]
    by (auto simp: networkFirst_on_response networkFirst_on_failure cache_match_def)
qed

theorem networkFirst_result_witness:
  "fst (networkFirst net_404 api_req s_api) = Inr (Some \<lparr>status = 404, body = ''not found'', vary = []\<rparr>) \<and>
   fst (networkFirst net_down api_req s_api) = Inr (Some \<lparr>status = 200, body = ''stale'', vary = []\<rparr>) \<and>
   fst (networkFirst net_down api_en s_api_vary) = Inr (Some en_resp) \<and>
   fst (networkFirst net_down api_req init_state) = Inl FetchFailed"
proof -
  have found: "find (matches api_req) (cache_of (caches s_api) RUNTIME_CACHE)
      = Some (api_req, \<lparr>status = 200, body = ''stale'', vary = []\<rparr>)"
    "find (matches api_en) (cache_of (caches s_api_vary) RUNTIME_CACHE) = Some (api_en, en_resp)"
    by (simp_all add: s_api_def s_api_vary_def init_state_def cache_of_def matches_def en_resp_def)
  have none: "list_all (\<lambda>x. \<not> matches api_req x) (cache_of (caches init_state) RUNTIME_CACHE)"
    by (simp add: init_state_def cache_of_def)
  have get: "req_method api_req = ''GET''" "req_method api_en = ''GET''"
    by (simp_all add: api_req_def api_en_def)
  have nets: "net_404 api_req = Inr \<lparr>status = 404, body = ''not found'', vary = []\<rparr>"
    "net_down api_req = Inl FetchFailed" "net_down api_en = Inl FetchFailed"
    by (simp_all add: net_404_def net_down_def)
  show ?thesis
    using networkFirst_result [of net_404 api_req _ s_api]
      networkFirst_result [of net_down api_req _ s_api FetchFailed api_req]
      networkFirst_result [of net_down api_en _ s_api_vary FetchFailed api_en en_resp]
      networkFirst_result [of net_down api_req _ init_state FetchFailed]
      found none get nets
    by simp
qed

text \<open>
  C3 as stated fails: the runtime generation holds an entry under the identity of the
  request, stored for English with a response that varies on \<^verbatim>\<open>accept-language\<close>; the
  request asks for Arabic, so \<^verbatim>\<open>cache.match\<close> finds nothing and the failure of the fetch
  propagates although an entry of that identity exists.
\<close>

theorem networkFirst_identity_not_enough:
  "req_method api_ar = ''GET'' \<and>
   identity_of api_ar = identity_of api_en \<and>
   map_of (keyed (cache_of (caches s_api_vary) RUNTIME_CACHE)) (identity_of api_ar) = Some en_resp \<and>
   fst (networkFirst net_down api_ar s_api_vary) = Inl FetchFailed"
  by (simp add: api_ar_def api_en_def api_req_def identity_of_def keyed_def s_api_vary_def
      init_state_def cache_of_def en_resp_def networkFirst_def Let_def cache_match_def matches_def
      caches_open_def fetch_def net_down_def RUNTIME_CACHE_def)

section \<open>What the strategies store\<close>

text \<open>
  C7. In both strategies, every \<^verbatim>\<open>cache.put\<close> the call starts carries a response of status
  200; when the fetch completes with another status no write is started; and the call
  itself leaves the entries of every generation as they were.
\<close>

theorem strategies_store_only_200:
  "(\<exists>q. pending (snd (cacheFirst net loc r s)) = pending s @ q \<and>
        list_all (\<lambda>p. status (snd (snd p)) = 200) q \<and>
        (net r = Inr resp \<and> status resp \<noteq> 200 \<longrightarrow> q = [])) \<and>
   (\<exists>q. pending (snd (networkFirst net r s)) = pending s @ q \<and>
        list_all (\<lambda>p. status (snd (snd p)) = 200) q \<and>
        (net r = Inr resp \<and> status resp \<noteq> 200 \<longrightarrow> q = [])) \<and>
   (\<forall>n. cache_of (caches (snd (cacheFirst net loc r s))) n = cache_of (caches s) n) \<and>
   (\<forall>n. cache_of (caches (snd (networkFirst net r s))) n = cache_of (caches s) n)"
proof (intro conjI allI)
  show "\<exists>q. pending (snd (cacheFirst net loc r s)) = pending s @ q \<and>
        list_all (\<lambda>p. status (snd (snd p)) = 200) q \<and>
        (net r = Inr resp \<and> status resp \<noteq> 200 \<longrightarrow> q = [])"
    by (cases rule: cacheFirst_cases [where r = r and s = s and net = net])
      (auto simp: cacheFirst_on_hit cacheFirst_on_response cacheFirst_on_failure)
  show "\<exists>q. pending (snd (networkFirst net r s)) = pending s @ q \<and>
        list_all (\<lambda>p. status (snd (snd p)) = 200) q \<and>
        (net r = Inr resp \<and> status resp \<noteq> 200 \<longrightarrow> q = [])"
    by (cases "net r") (auto simp: networkFirst_on_response networkFirst_on_failure)
  show "cache_of (caches (snd (cacheFirst net loc r s))) n = cache_of (caches s) n" for n
    by (cases rule: cacheFirst_cases [where r = r and s = s and net = net])
      (auto simp: cacheFirst_on_hit cacheFirst_on_response cacheFirst_on_failure)
  show "cache_of (caches (snd (networkFirst net r s))) n = cache_of (caches s) n" for n
    by (cases "net r") (auto simp: networkFirst_on_response networkFirst_on_failure)
qed

theorem strategies_store_only_200_witness:
  "pending (snd (cacheFirst net_404 loc0 page_req init_state)) = [] \<and>
   pending (snd (networkFirst net_404 page_req init_state)) = [] \<and>
   cache_of (caches (snd (cacheFirst net_404 loc0 page_req init_state))) CACHE_NAME = [] \<and>
   cache_of (caches (snd (networkFirst net_404 page_req init_state))) RUNTIME_CACHE = []"
  using strategies_store_only_200 [of net_404 loc0 page_req init_state "\<lparr>status = 404, body = ''not found'', vary = []\<rparr>"]
  by (auto simp add: net_404_def init_state_def cache_of_def)

section \<open>activate\<close>

text \<open>
  C5. \<open>activate\<close> keeps exactly the generations named \<open>CACHE_NAME\<close> or \<open>RUNTIME_CACHE\<close>, with
  their entries, and the names it deletes are exactly the other names of the storage.
  It is idempotent: after one run a second run has no name to delete and gives the same
  state.
\<close>

theorem activate_purges_stale:
  "caches (activate s) = filter (\<lambda>e. fst e \<in> {CACHE_NAME, RUNTIME_CACHE}) (caches s) \<and>
   set (stale_names (caches s)) = fst ` set (caches s) - {CACHE_NAME, RUNTIME_CACHE} \<and>
   stale_names (caches (activate s)) = [] \<and>
   activate (activate s) = activate s"
proof -
  have nil: "stale_names (caches (activate s)) = []"
    by (auto simp: caches_activate stale_names_def filter_empty_conv)
  have "activate (activate s) = activate s"
    unfolding activate_def [of "activate s"] nil by (simp add: activate_def)
  then show ?thesis
    using nil by (simp add: caches_activate set_stale_names)
qed

theorem activate_purges_stale_witness:
  "caches (activate s_old) = [(CACHE_NAME, [index_entry]), (RUNTIME_CACHE, [])] \<and>
   stale_names (caches s_old) = [''quran-app-v1.0'', ''quran-runtime-v1.0''] \<and>
   stale_names (caches (activate s_old)) = [] \<and>
   activate (activate s_old) = activate s_old"
  using activate_purges_stale [of s_old]
  by (simp add: s_old_def init_state_def stale_names_def CACHE_NAME_def RUNTIME_CACHE_def)

section \<open>The fetch handler's choice of strategy\<close>

text \<open>
  C6. For a GET request that is same-origin or on the allow-list, the handler chooses
  network-first exactly when \<open>isAPIRequest\<close> holds of the URL and cache-first otherwise,
  and responds with that strategy's result. Both \<open>isAPIRequest\<close> and \<open>isAllowedAPI\<close> are
  substring containment: they hold if and only if some configured domain string occurs
  somewhere in the hostname.
\<close>

theorem classify_strategy:
  assumes "req_method r = ''GET''"
    and "origin (req_url r) = origin loc \<or> isAllowedAPI (req_url r)"
  shows "(classify loc r = NetworkFirst \<longleftrightarrow> isAPIRequest (req_url r)) \<and>
         (classify loc r = CacheFirst \<longleftrightarrow> \<not> isAPIRequest (req_url r)) \<and>
         onfetch net loc r s =
           (if isAPIRequest (req_url r)
            then (RespondWith (fst (networkFirst net r s)), snd (networkFirst net r s))
            else (RespondWith (fst (cacheFirst net loc r s)), snd (cacheFirst net loc r s))) \<and>
         (isAPIRequest (req_url r) \<longleftrightarrow>
            (\<exists>d \<in> set apiDomains. \<exists>pre suf. hostname (req_url r) = pre @ d @ suf)) \<and>
         (isAllowedAPI (req_url r) \<longleftrightarrow>
            (\<exists>d \<in> set allowedDomains. \<exists>pre suf. hostname (req_url r) = pre @ d @ suf))"
proof -
  have "classify loc r = (if isAPIRequest (req_url r) then NetworkFirst else CacheFirst)"
    using assms by (auto simp: classify_def)
  moreover have "isAPIRequest (req_url r) \<longleftrightarrow>
      (\<exists>d \<in> set apiDomains. \<exists>pre suf. hostname (req_url r) = pre @ d @ suf)"
    by (simp add: isAPIRequest_def list_ex_iff str_includes_iff)
  moreover have "isAllowedAPI (req_url r) \<longleftrightarrow>
      (\<exists>d \<in> set allowedDomains. \<exists>pre suf. hostname (req_url r) = pre @ d @ suf)"
    by (simp add: isAllowedAPI_def list_ex_iff str_includes_iff)
  ultimately show ?thesis
    by (simp add: onfetch_classify)
qed

theorem classify_strategy_witness:
  "classify loc0 api_req = NetworkFirst \<and> isAPIRequest (req_url api_req) \<and>
   classify loc0 page_req = CacheFirst \<and> classify loc0 evil_req = CacheFirst \<and>
   isAllowedAPI (req_url evil_req) \<and>
   (\<exists>pre suf. hostname (req_url evil_req) = pre @ ''server'' @ suf)"
proof -
  have api: "req_method api_req = ''GET''" "isAPIRequest (req_url api_req)"
    "isAllowedAPI (req_url api_req)"
    by (simp_all add: api_req_def isAPIRequest_def apiDomains_def isAllowedAPI_def allowedDomains_def)
  have page: "req_method page_req = ''GET''" "origin (req_url page_req) = origin loc0"
    "\<not> isAPIRequest (req_url page_req)"
    by (simp_all add: page_req_def own_req_def loc0_def isAPIRequest_def apiDomains_def)
  have evil: "req_method evil_req = ''GET''" "isAllowedAPI (req_url evil_req)"
    "\<not> isAPIRequest (req_url evil_req)"
    by (simp_all add: evil_req_def isAPIRequest_def apiDomains_def isAllowedAPI_def allowedDomains_def)
  have "classify loc0 api_req = NetworkFirst"
    using classify_strategy [of api_req loc0, THEN conjunct1] api by simp
  moreover have "classify loc0 page_req = CacheFirst"
    using classify_strategy [of page_req loc0, THEN conjunct2, THEN conjunct1] page by simp
  moreover have "classify loc0 evil_req = CacheFirst"
    using classify_strategy [of evil_req loc0, THEN conjunct2, THEN conjunct1] evil by simp
  moreover have "hostname (req_url evil_req) = ''evil-'' @ ''server'' @ ''.com''"
    by (simp add: evil_req_def)
  then have "\<exists>pre suf. hostname (req_url evil_req) = pre @ ''server'' @ suf"
    by blast
  ultimately show ?thesis
    using api evil by simp
qed

section \<open>Requests that are not GET\<close>

text \<open>
  C8. A request whose method is not GET is not intercepted: the fetch handler returns
  without responding and leaves the state (storage, started writes, network log) as it
  was. And its identity is never the identity of an entry of any generation: starting
  from a storage whose stored requests are all GET requests (the empty storage is one),
  no run of events, completions of writes and strategy calls, on whatever requests,
  produces such an entry.
\<close>

theorem non_get_bypasses_store:
  assumes "req_method r \<noteq> ''GET''" and "get_only (caches s0)"
  shows "onfetch net loc r s = (NotIntercepted, s) \<and>
         (\<forall>name. identity_of r \<notin> fst ` set (keyed (cache_of (caches (run loc es s0)) name)))"
proof -
  have "identity_of r \<notin> fst ` set (keyed (cache_of (caches (run loc es s0)) name))" for name
  proof -
    have "get_keys (cache_of (caches (run loc es s0)) name)"
      using assms(2) by (intro get_only_cache_of get_only_run)
    then show ?thesis
      using assms(1) by (auto simp: get_keys_def list_all_iff identity_of_def keyed_def)
  qed
  then show ?thesis
    using assms(1) by (simp add: onfetch_def)
qed

theorem non_get_bypasses_store_witness:
  "onfetch net_ok loc0 post_req init_state = (NotIntercepted, init_state) \<and>
   identity_of post_req \<notin> fst ` set (keyed (cache_of (caches (run loc0
      [Install net_ok, Activate, Fetch net_ok post_req, CallCacheFirst net_ok post_req,
       Complete 0, CallNetworkFirst net_ok post_req, Settle] init_state)) CACHE_NAME)) \<and>
   identity_of post_req \<notin> fst ` set (keyed (cache_of (caches (run loc0
      [Install net_ok, Activate, Fetch net_ok post_req, CallCacheFirst net_ok post_req,
       Complete 0, CallNetworkFirst net_ok post_req, Settle] init_state)) RUNTIME_CACHE))"
proof -
  have "req_method post_req \<noteq> ''GET''"
    by (simp add: post_req_def own_req_def)
  moreover have "get_only (caches init_state)"
    by (simp add: init_state_def get_only_def)
  ultimately show ?thesis
    using non_get_bypasses_store [of post_req init_state net_ok loc0 init_state] by blast
qed

section \<open>install\<close>

text \<open>
  C4, as the code has it. \<open>install\<close> is all-or-nothing. If some manifest asset fails to fetch (the network
  fails, or answers with a response \<^verbatim>\<open>cache.addAll\<close> rejects), \<open>install\<close> fails, no entry of
  any generation is written, no write is left started, and \<^verbatim>\<open>skipWaiting\<close> is not called.
  Run again on a network where every asset fetches, \<open>install\<close> succeeds and calls
  \<^verbatim>\<open>skipWaiting\<close>; for every manifest asset the static generation then holds exactly one
  entry that matches its request, with the response fetched for it. If no entry that was
  in the generation before has a \<^verbatim>\<open>Vary\<close> header, it holds exactly one entry of the asset's
  identity; and if the generation was empty before, its entries are exactly the
  manifest's identities, one each.
\<close>

theorem install_all_or_nothing:
  assumes bad: "\<not> list_all (\<lambda>a. fetches_ok net (request_of loc a)) STATIC_ASSETS"
    and good: "list_all (\<lambda>a. fetches_ok net' (request_of loc a)) STATIC_ASSETS"
  shows "(\<exists>e. fst (install net loc s) = Inl e) \<and>
         (\<forall>n. cache_of (caches (snd (install net loc s))) n = cache_of (caches s) n) \<and>
         pending (snd (install net loc s)) = pending s \<and>
         skip_waiting (snd (install net loc s)) = skip_waiting s \<and>
         fst (install net' loc (snd (install net loc s))) = Inr () \<and>
         skip_waiting (snd (install net' loc (snd (install net loc s)))) \<and>
         (\<forall>a \<in> set STATIC_ASSETS.
            match_count (request_of loc a)
              (cache_of (caches (snd (install net' loc (snd (install net loc s))))) CACHE_NAME) = 1 \<and>
            (\<exists>resp. net' (request_of loc a) = Inr resp \<and>
               cache_match (request_of loc a)
                 (cache_of (caches (snd (install net' loc (snd (install net loc s))))) CACHE_NAME)
                 = Some resp)) \<and>
         (list_all (\<lambda>e. vary (snd e) = []) (cache_of (caches s) CACHE_NAME) \<longrightarrow>
            (\<forall>a \<in> set STATIC_ASSETS.
               entry_count (asset_key loc a)
                 (keyed (cache_of (caches (snd (install net' loc (snd (install net loc s))))) CACHE_NAME)) = 1 \<and>
               (\<exists>resp. net' (request_of loc a) = Inr resp \<and>
                  map_of (keyed (cache_of (caches (snd (install net' loc (snd (install net loc s))))) CACHE_NAME))
                    (asset_key loc a) = Some resp))) \<and>
         (cache_of (caches s) CACHE_NAME = [] \<longrightarrow>
            map fst (keyed (cache_of (caches (snd (install net' loc (snd (install net loc s))))) CACHE_NAME))
              = map (asset_key loc) STATIC_ASSETS)"
proof -
  let ?s1 = "snd (install net loc s)"
  let ?s2 = "snd (install net' loc ?s1)"
  let ?c2 = "cache_of (caches ?s2) CACHE_NAME"
  let ?ps = "manifest_puts net' loc"
  note first = install_fails [OF bad, of s]
  note acc = manifest_puts_accepted [OF good]
  have c2: "?c2 = foldl put_into (cache_of (caches s) CACHE_NAME) ?ps"
    using cache_of_installed [of "caches_open CACHE_NAME (caches s)" net' loc]
    by (simp add: first install_ok [OF good])
  have resp: "\<exists>resp. net' (request_of loc a) = Inr resp \<and> projr (net' (request_of loc a)) = resp"
    if "a \<in> set STATIC_ASSETS" for a
  proof -
    from good that have "fetches_ok net' (request_of loc a)"
      by (simp add: list_all_iff)
    then show ?thesis
      by (auto simp: fetches_ok_def split: sum.splits)
  qed
  have put: "(CACHE_NAME, request_of loc a, projr (net' (request_of loc a))) \<in> set ?ps"
    if "a \<in> set STATIC_ASSETS" for a
    using that by (auto simp: manifest_puts_def)
  have get: "req_method (request_of loc a) = ''GET''" for a
    by (simp add: request_of_def)
  have matching: "filter (matches (request_of loc a)) ?c2
      = [(request_of loc a, projr (net' (request_of loc a)))]" if "a \<in> set STATIC_ASSETS" for a
    unfolding c2 using filter_matches_foldl [OF acc manifest_puts_distinct put [OF that]] by simp
  have by_match: "match_count (request_of loc a) ?c2 = 1 \<and>
      (\<exists>resp. net' (request_of loc a) = Inr resp \<and> cache_match (request_of loc a) ?c2 = Some resp)"
    if "a \<in> set STATIC_ASSETS" for a
    using matching [OF that] resp [OF that] cache_match_as_filter [OF get matching [OF that]]
    by (simp add: match_count_def)
  have by_identity: "entry_count (asset_key loc a) (keyed ?c2) = 1 \<and>
      (\<exists>resp. net' (request_of loc a) = Inr resp \<and> map_of (keyed ?c2) (asset_key loc a) = Some resp)"
    if nov: "list_all (\<lambda>e. vary (snd e) = []) (cache_of (caches s) CACHE_NAME)"
      and a: "a \<in> set STATIC_ASSETS" for a
  proof -
    let ?r = "request_of loc a"
    have addr: "filter (\<lambda>e. address (req_url (fst e)) = address (req_url ?r)) ?c2 = [(?r, projr (net' ?r))]"
      unfolding c2 using filter_address_foldl [OF acc manifest_puts_distinct nov put [OF a]] by simp
    have "filter (\<lambda>e. identity_of (fst e) = asset_key loc a) ?c2
        = filter (\<lambda>e. req_method (fst e) = ''GET'')
            (filter (\<lambda>e. address (req_url (fst e)) = address (req_url ?r)) ?c2)"
      by (auto simp: identity_of_def asset_key_def address_request_of [OF a] intro!: filter_cong)
    also have "\<dots> = [(?r, projr (net' ?r))]"
      by (simp add: addr get)
    finally have "filter (\<lambda>e. fst e = asset_key loc a) (keyed ?c2) = [(asset_key loc a, projr (net' ?r))]"
      by (simp add: filter_keyed) (simp add: keyed_def identity_of_request_of [OF a])
    then show ?thesis
      using resp [OF a] map_of_as_filter [of "asset_key loc a" "keyed ?c2"] by (simp add: entry_count_def)
  qed
  have fresh: "map fst (keyed ?c2) = map (asset_key loc) STATIC_ASSETS" if "cache_of (caches s) CACHE_NAME = []"
    unfolding c2 that
    using foldl_put_into_fresh [OF acc manifest_puts_distinct] manifest_puts_ids [of net' loc]
    by (simp add: keyed_def comp_def)
  show ?thesis
    using by_match by_identity fresh by (simp add: first install_ok [OF good])
qed

theorem install_all_or_nothing_witness:
  "(\<exists>e. fst (install net_bad3 loc0 init_state) = Inl e) \<and>
   cache_of (caches (snd (install net_bad3 loc0 init_state))) CACHE_NAME = [] \<and>
   \<not> skip_waiting (snd (install net_bad3 loc0 init_state)) \<and>
   fst (install net_ok loc0 (snd (install net_bad3 loc0 init_state))) = Inr () \<and>
   skip_waiting (snd (install net_ok loc0 (snd (install net_bad3 loc0 init_state)))) \<and>
   length (cache_of (caches (snd (install net_ok loc0 (snd (install net_bad3 loc0 init_state))))) CACHE_NAME) = 8"
proof -
  have bad: "\<not> list_all (\<lambda>a. fetches_ok net_bad3 (request_of loc0 a)) STATIC_ASSETS"
    by (simp add: STATIC_ASSETS_def fetches_ok_def net_bad3_def request_of_def loc0_def)
  have good: "list_all (\<lambda>a. fetches_ok net_ok (request_of loc0 a)) STATIC_ASSETS"
    by (simp add: STATIC_ASSETS_def fetches_ok_def net_ok_def ok_status_def request_of_def
        http_url_def loc0_def)
  have empty: "cache_of (caches init_state) CACHE_NAME = []"
    by (simp add: init_state_def cache_of_def)
  have unset: "\<not> skip_waiting init_state"
    by (simp add: init_state_def)
  note inst = install_all_or_nothing [OF bad good, of init_state]
  from inst empty
  have "map fst (keyed (cache_of (caches (snd (install net_ok loc0 (snd (install net_bad3 loc0 init_state))))) CACHE_NAME))
          = map (asset_key loc0) STATIC_ASSETS"
    by blast
  then have "length (cache_of (caches (snd (install net_ok loc0 (snd (install net_bad3 loc0 init_state))))) CACHE_NAME)
          = length STATIC_ASSETS"
    by (metis length_map keyed_def)
  then show ?thesis
    using inst empty unset by (simp add: STATIC_ASSETS_def)
qed

text \<open>
  C4 as stated fails in its count of entries: the static generation holds the index
  page, stored for a request that accepts HTML with a response that varies on
  \<^verbatim>\<open>accept\<close>. A failed and then a successful \<open>install\<close> add the entry fetched for the
  manifest's \<^verbatim>\<open>/index.html\<close> beside it, since the older entry does not match the manifest's
  request: the generation holds two entries of that asset's identity.
\<close>

theorem install_keeps_entry_under_other_headers:
  "fst (install net_bad3 loc0 s_vary) = Inl TypeError \<and>
   fst (install net_ok loc0 (snd (install net_bad3 loc0 s_vary))) = Inr () \<and>
   entry_count (asset_key loc0 ''/index.html'')
     (keyed (cache_of (caches (snd (install net_ok loc0 (snd (install net_bad3 loc0 s_vary))))) CACHE_NAME)) = 2"
proof -
  have bad: "\<not> list_all (\<lambda>a. fetches_ok net_bad3 (request_of loc0 a)) STATIC_ASSETS"
    by (simp add: STATIC_ASSETS_def fetches_ok_def net_bad3_def request_of_def loc0_def)
  have good: "list_all (\<lambda>a. fetches_ok net_ok (request_of loc0 a)) STATIC_ASSETS"
    by (simp add: STATIC_ASSETS_def fetches_ok_def net_ok_def ok_status_def request_of_def
        http_url_def loc0_def)
  note first = install_fails [OF bad, of s_vary]
  note second = install_ok [OF good]
  have "cache_of (caches (snd (install net_ok loc0 (snd (install net_bad3 loc0 s_vary))))) CACHE_NAME
      = foldl put_into [(html_req, html_resp)] (manifest_puts net_ok loc0)"
    using cache_of_installed [of "caches_open CACHE_NAME (caches s_vary)" net_ok loc0]
    by (simp add: first second) (simp add: s_vary_def init_state_def cache_of_def)
  then show ?thesis
    by (simp add: first second)
      (simp add: manifest_puts_def STATIC_ASSETS_def put_into_def cache_put_def request_of_def
        loc0_def net_ok_def http_url_def matches_def html_req_def html_resp_def own_req_def
        entry_count_def keyed_def identity_of_def asset_key_def)
qed

section \<open>The offline fallback\<close>

text \<open>
  C9, at the input where the code departs from it. \<^verbatim>\<open>/offline.html\<close> is not among
  \<open>STATIC_ASSETS\<close>. After a successful install on a fresh storage, a navigation request
  that misses while the network is down makes \<open>cacheFirst\<close> resolve with no response at
  all (\<^verbatim>\<open>caches.match('/offline.html')\<close> finds nothing), not with an offline document.
\<close>

theorem offline_fallback_never_cached:
  "''/offline.html'' \<notin> set STATIC_ASSETS \<and>
   fst (install net_ok loc0 init_state) = Inr () \<and>
   fst (cacheFirst net_down loc0 page_req (snd (install net_ok loc0 init_state))) = Inr None"
  unfolding installed_state
  by (simp add: STATIC_ASSETS_def manifest_puts_def caches_open_def
      apply_put_def put_into_def cache_put_def request_of_def identity_of_def loc0_def
      net_ok_def net_down_def init_state_def cacheFirst_def Let_def fetch_def cache_match_def
      matches_def http_url_def cache_of_def page_req_def own_req_def CACHE_NAME_def)

section \<open>Which generation a strategy touches\<close>

text \<open>
  C10, as the code has it. \<open>cacheFirst\<close> starts writes only into the static generation and
  \<open>networkFirst\<close> only into the runtime generation, and neither call changes an entry of
  any generation by itself; so, once the started writes have completed, a \<open>cacheFirst\<close>
  call has left the runtime generation, and a \<open>networkFirst\<close> call the static generation,
  as it would be without the call, and whenever a single write into one of the two
  generations completes, the other generation stays as it was. The result of \<open>networkFirst\<close> depends on the storage
  only through the runtime generation. The result of \<open>cacheFirst\<close> depends on the storage
  only through the static generation, except when a navigation request misses and its
  fetch fails: the offline fallback is then looked up in every generation.
\<close>

theorem strategies_generations:
  "(\<exists>q. pending (snd (cacheFirst net loc r s)) = pending s @ q \<and> list_all (\<lambda>p. fst p = CACHE_NAME) q) \<and>
   (\<exists>q. pending (snd (networkFirst net r s)) = pending s @ q \<and> list_all (\<lambda>p. fst p = RUNTIME_CACHE) q) \<and>
   (\<forall>n. cache_of (caches (snd (cacheFirst net loc r s))) n = cache_of (caches s) n) \<and>
   (\<forall>n. cache_of (caches (snd (networkFirst net r s))) n = cache_of (caches s) n) \<and>
   cache_of (caches (settle (snd (cacheFirst net loc r s)))) RUNTIME_CACHE
     = cache_of (caches (settle s)) RUNTIME_CACHE \<and>
   cache_of (caches (settle (snd (networkFirst net r s)))) CACHE_NAME
     = cache_of (caches (settle s)) CACHE_NAME \<and>
   (\<forall>t i. i < length (pending t) \<longrightarrow> fst (pending t ! i) = CACHE_NAME \<longrightarrow>
      cache_of (caches (complete i t)) RUNTIME_CACHE = cache_of (caches t) RUNTIME_CACHE) \<and>
   (\<forall>t i. i < length (pending t) \<longrightarrow> fst (pending t ! i) = RUNTIME_CACHE \<longrightarrow>
      cache_of (caches (complete i t)) CACHE_NAME = cache_of (caches t) CACHE_NAME) \<and>
   (cache_of (caches s) RUNTIME_CACHE = cache_of (caches s') RUNTIME_CACHE \<longrightarrow>
      fst (networkFirst net r s) = fst (networkFirst net r s')) \<and>
   (cache_of (caches s) CACHE_NAME = cache_of (caches s') CACHE_NAME \<longrightarrow>
      req_mode r \<noteq> ''navigate'' \<or> (\<exists>resp. net r = Inr resp) \<or>
        cache_match r (cache_of (caches s) CACHE_NAME) \<noteq> None \<longrightarrow>
      fst (cacheFirst net loc r s) = fst (cacheFirst net loc r s'))"
proof -
  obtain q where q: "pending (snd (cacheFirst net loc r s)) = pending s @ q"
      "list_all (\<lambda>p. fst p = CACHE_NAME) q"
    using pending_cacheFirst by blast
  obtain q' where q': "pending (snd (networkFirst net r s)) = pending s @ q'"
      "list_all (\<lambda>p. fst p = RUNTIME_CACHE) q'"
    using pending_networkFirst by blast
  have "cache_of (caches (settle (snd (cacheFirst net loc r s)))) RUNTIME_CACHE
      = cache_of (caches (settle s)) RUNTIME_CACHE"
    using settled_other_generation [OF caches_cacheFirst q names_differ] .
  moreover have "cache_of (caches (settle (snd (networkFirst net r s)))) CACHE_NAME
      = cache_of (caches (settle s)) CACHE_NAME"
    using settled_other_generation [OF caches_networkFirst q' names_differ [symmetric]] .
  moreover have "cache_of (caches (complete i t)) n = cache_of (caches t) n"
    if "i < length (pending t)" "fst (pending t ! i) \<noteq> n" for t i n
    using that by (simp add: caches_complete cache_of_apply_put_other)
  ultimately show ?thesis
    using q q' networkFirst_reads_runtime [of s s' net r] cacheFirst_reads_static [of s s' r net loc]
      names_differ
    by (simp add: caches_cacheFirst caches_networkFirst)
qed

theorem strategies_generations_witness:
  "cache_of (caches (settle (snd (cacheFirst net_ok loc0 page_req init_state)))) RUNTIME_CACHE = [] \<and>
   cache_of (caches (settle (snd (networkFirst net_ok api_req init_state)))) CACHE_NAME = [] \<and>
   fst (networkFirst net_down api_req s_api) = fst (networkFirst net_down api_req s_api_static) \<and>
   fst (cacheFirst net_down loc0 logo_req init_state) = fst (cacheFirst net_down loc0 logo_req s_runtime_offline) \<and>
   cache_of (caches (complete 0 (snd (cacheFirst net_ok loc0 page_req init_state)))) RUNTIME_CACHE = []"
proof -
  have empty: "cache_of (caches (settle init_state)) RUNTIME_CACHE = []"
    "cache_of (caches (settle init_state)) CACHE_NAME = []"
    by (simp_all add: settle_def init_state_def cache_of_def)
  have same_runtime: "cache_of (caches s_api) RUNTIME_CACHE = cache_of (caches s_api_static) RUNTIME_CACHE"
    by (simp add: s_api_static_def s_api_def init_state_def cache_of_def CACHE_NAME_def RUNTIME_CACHE_def)
  have same_static: "cache_of (caches init_state) CACHE_NAME = cache_of (caches s_runtime_offline) CACHE_NAME"
    by (simp add: s_runtime_offline_def init_state_def cache_of_def)
  have not_nav: "req_mode logo_req \<noteq> ''navigate''"
    by (simp add: logo_req_def own_req_def)
  have started: "pending (snd (cacheFirst net_ok loc0 page_req init_state))
      = [(CACHE_NAME, page_req, \<lparr>status = 200, body = ''body of https://quran.example/quran'', vary = []\<rparr>)]"
    "cache_of (caches (snd (cacheFirst net_ok loc0 page_req init_state))) RUNTIME_CACHE = []"
    by (simp_all add: cacheFirst_def Let_def fetch_def cache_match_def cache_of_def caches_open_def
        init_state_def page_req_def own_req_def net_ok_def CACHE_NAME_def RUNTIME_CACHE_def)
  show ?thesis
    using strategies_generations [of net_ok loc0 page_req init_state]
      strategies_generations [of net_ok loc0 api_req init_state]
      strategies_generations [of net_down loc0 api_req s_api s_api_static]
      strategies_generations [of net_down loc0 logo_req init_state s_runtime_offline]
      empty same_runtime same_static not_nav started
    by simp
qed

text \<open>
  C10 as stated fails: with an empty static generation, the result of \<open>cacheFirst\<close> for a
  navigation whose fetch fails is read from the runtime generation, or from the
  generation of an older version, when one of them holds \<^verbatim>\<open>/offline.html\<close>.
\<close>

theorem cacheFirst_reads_other_generations:
  "cache_of (caches s_runtime_offline) CACHE_NAME = [] \<and>
   fst (cacheFirst net_down loc0 page_req s_runtime_offline) = Inr (Some \<lparr>status = 200, body = ''offline'', vary = []\<rparr>) \<and>
   cache_of (caches s_old_offline) CACHE_NAME = [] \<and>
   fst (cacheFirst net_down loc0 page_req s_old_offline) = Inr (Some \<lparr>status = 200, body = ''offline'', vary = []\<rparr>) \<and>
   cache_of (caches init_state) CACHE_NAME = [] \<and>
   fst (cacheFirst net_down loc0 page_req init_state) = Inr None"
  by (simp add: s_runtime_offline_def s_old_offline_def offline_entry_def init_state_def
      cacheFirst_def Let_def fetch_def cache_match_def matches_def cache_of_def caches_open_def
      request_of_def loc0_def net_down_def page_req_def own_req_def CACHE_NAME_def RUNTIME_CACHE_def)

end
